theory Spec2Isabelle
  imports Main "HOL-Library.AList" "HOL-Library.Multiset"
begin

chapter \<open>Adapt core: style matching, match registry, observers, status tracker, history commits\<close>

text \<open>
  A shallow embedding of the parts of the Adapt core that the style engine
  (\<^verbatim>\<open>css.ts\<close>), the observer registry (\<^verbatim>\<open>observers/registry.ts\<close>), the deployment
  status tracker (\<^verbatim>\<open>deploy/status_tracker.ts\<close>) and the history commit function of
  \<^verbatim>\<open>ops/buildAndDeploy.ts\<close> consist of, with the evaluation of style rules by the
  build engine and the execution of actions as the specification describes them.

  Conventions. A JavaScript object that is used as a key of a \<^verbatim>\<open>Map\<close> is modelled
  by a value that stands for its identity. A function that mutates an object takes the
  state and returns the new state. A \<^verbatim>\<open>throw\<close> is a value of type \<open>error\<close>; where the
  state mutated before the \<^verbatim>\<open>throw\<close> stays visible to the caller, the result carries it.
\<close>

section \<open>Errors\<close>

text \<open>
  \<^verbatim>\<open>InternalError\<close> and the plain \<^verbatim>\<open>Error\<close> of the sources, and the \<^verbatim>\<open>TypeError\<close> that
  JavaScript raises, each with its message. Where a message embeds \<^verbatim>\<open>util.inspect\<close> or
  \<^verbatim>\<open>JSON.stringify\<close> output, only the fixed part of the message is kept.
\<close>

datatype error = InternalError string | Error string | TypeError string

section \<open>Plain JavaScript objects as dictionaries\<close>

text \<open>
  The sources use plain objects as dictionaries: \<^verbatim>\<open>const observers: ObserverRecord = {}\<close>,
  the \<^verbatim>\<open>executedQueries\<close> argument of \<^verbatim>\<open>observe\<close>, and \<^verbatim>\<open>matchPseudoConfig\<close> of the
  style engine. A map of the model holds the own properties of such an object.
  \<^verbatim>\<open>obj[name]\<close> (\<open>jsGet\<close>) yields the own property if there is one, else the member that
  the object inherits from \<^verbatim>\<open>Object.prototype\<close> under that name
  (\<open>objectPrototypeKeys\<close>), else \<^verbatim>\<open>undefined\<close>.
\<close>

datatype 'a jsprop = Own 'a | Inherited | Undefined

definition objectPrototypeKeys :: "string list" where
  "objectPrototypeKeys =
     [''constructor'', ''__defineGetter__'', ''__defineSetter__'', ''hasOwnProperty'',
      ''__lookupGetter__'', ''__lookupSetter__'', ''isPrototypeOf'', ''propertyIsEnumerable'',
      ''toString'', ''valueOf'', ''__proto__'', ''toLocaleString'']"

definition jsGet :: "(string \<rightharpoonup> 'a) \<Rightarrow> string \<Rightarrow> 'a jsprop" where
  "jsGet obj name =
     (case obj name of
        Some v \<Rightarrow> Own v
      | None \<Rightarrow> if name \<in> set objectPrototypeKeys then Inherited else Undefined)"

section \<open>Style engine: matching a selector against a path (css.ts)\<close>

text \<open>
  An element of a path: the style engine reads its component type, through
  \<^verbatim>\<open>uniqueName\<close> (a name given to each component type when first seen, so that types
  are compared by reference), and its props. \<open>componentType\<close> is that unique name.
  \<open>props\<close> are the own properties in the order of \<^verbatim>\<open>Object.keys\<close>; only whether a
  value is a string, and which, matters to the matcher.
\<close>

datatype PropValue = StringValue string | OtherValue

record AdaptElement =
  componentType :: string
  props :: "(string \<times> PropValue) list"

type_synonym DomPath = "AdaptElement list"

text \<open>
  The selector fragments that \<^verbatim>\<open>css-what\<close> produces. \<^verbatim>\<open>matchConfig\<close> has matchers for
  \<^verbatim>\<open>attribute\<close>, \<^verbatim>\<open>child\<close>, \<^verbatim>\<open>descendant\<close>, \<^verbatim>\<open>pseudo\<close> and \<^verbatim>\<open>tag\<close>; the other
  fragment types are \<open>Unsupported\<close>. An attribute fragment has a name, an action, a
  value and \<^verbatim>\<open>ignoreCase\<close>; a pseudo fragment a name and data (null, a string, or a
  selector).
\<close>

datatype AttributeAction = Exists | Equals | Start | Any | End | Element | NotAction | Hyphen

datatype UnsupportedType = Universal | PseudoElement | Adjacent | Sibling | Parent

datatype SelFrag =
    Attribute string AttributeAction string bool
  | Child
  | Descendant
  | Pseudo string PseudoData
  | Tag string
  | Unsupported UnsupportedType
and PseudoData =
    NullData
  | StringData string
  | SelectorData "SelFrag list list"

type_synonym ParsedSelectorBlock = "SelFrag list"

type_synonym ParsedSelector = "ParsedSelectorBlock list"

record Matched =
  newPath :: DomPath
  matched :: bool

text \<open>
  String operations of JavaScript. A string is a list of code units below 256 (the
  type \<open>char\<close>). In that range \<^verbatim>\<open>toLowerCase\<close> maps the letters A to Z and the
  letters U+00C0 to U+00DE, U+00D7 (the multiplication sign) apart, to the code unit
  32 above, and the white space of \<^verbatim>\<open>split(/\s+/)\<close> is tab, line feed, vertical tab,
  form feed, carriage return, space and the no-break space U+00A0.
\<close>

definition toLowerChar :: "char \<Rightarrow> char" where
  "toLowerChar c =
     (if (65 \<le> (of_char c :: nat) \<and> (of_char c :: nat) \<le> 90)
         \<or> (192 \<le> (of_char c :: nat) \<and> (of_char c :: nat) \<le> 222 \<and> (of_char c :: nat) \<noteq> 215)
      then char_of ((of_char c :: nat) + 32) else c)"

definition toLowerCase :: "string \<Rightarrow> string" where
  "toLowerCase s = map toLowerChar s"

definition isWhitespace :: "char \<Rightarrow> bool" where
  "isWhitespace c = ((of_char c :: nat) \<in> {9, 10, 11, 12, 13, 32, 160})"

fun splitWhitespaceFrom :: "string \<Rightarrow> string \<Rightarrow> bool \<Rightarrow> string list" where
  "splitWhitespaceFrom [] cur inSpace = [rev cur]"
| "splitWhitespaceFrom (c # cs) cur inSpace =
     (if isWhitespace c
      then (if inSpace then splitWhitespaceFrom cs [] True
            else rev cur # splitWhitespaceFrom cs [] True)
      else splitWhitespaceFrom cs (c # cur) False)"

definition splitWhitespace :: "string \<Rightarrow> string list" where
  "splitWhitespace s = splitWhitespaceFrom s [] False"

definition startsWith :: "string \<Rightarrow> string \<Rightarrow> bool" where
  "startsWith s x = (take (length x) s = x)"

definition endsWith :: "string \<Rightarrow> string \<Rightarrow> bool" where
  "endsWith s x = (length x \<le> length s \<and> drop (length s - length x) s = x)"

definition includesStr :: "string \<Rightarrow> string \<Rightarrow> bool" where
  "includesStr s x = (\<exists>i \<in> set [0 ..< Suc (length s)]. take (length x) (drop i s) = x)"

text \<open>
  \<^verbatim>\<open>last(arr)\<close> returns the prefix and the last element, or \<^verbatim>\<open>null\<close> for the empty
  array. \<^verbatim>\<open>getPropValue\<close> returns the prop if it is a string; with \<^verbatim>\<open>ignoreCase\<close>
  the last key that equals the name up to case wins. (A member inherited from
  \<^verbatim>\<open>Object.prototype\<close> is never a string, so the lookup is one among the own props.)
\<close>

definition lastOf :: "'a list \<Rightarrow> 'a list \<times> 'a option" where
  "lastOf arr = (if arr = [] then ([], None) else (butlast arr, Some (last arr)))"

definition getPropValue :: "AdaptElement \<Rightarrow> string \<Rightarrow> bool \<Rightarrow> string option" where
  "getPropValue elem prop ignoreCase =
     (let val =
        (if ignoreCase
         then foldl (\<lambda>v (key, x). if toLowerCase key = toLowerCase prop then Some x else v)
                None (props elem)
         else map_of (props elem) prop)
      in (case val of Some (StringValue s) \<Rightarrow> Some s | _ \<Rightarrow> None))"

text \<open>The matchers that do not recurse. Each returns the path to go on with and whether the fragment matched.\<close>

definition matchRoot :: "SelFrag \<Rightarrow> DomPath \<Rightarrow> error + Matched" where
  "matchRoot frag path = Inr \<lparr>newPath = path, matched = (length path = 1)\<rparr>"

definition matchAttribute :: "SelFrag \<Rightarrow> DomPath \<Rightarrow> error + Matched" where
  "matchAttribute frag path =
     (case frag of
        Attribute name action fvalue ignoreCase \<Rightarrow>
          (case snd (lastOf path) of
             None \<Rightarrow> Inl (InternalError ''null element'')
           | Some elem \<Rightarrow>
               (case getPropValue elem name ignoreCase of
                  None \<Rightarrow> Inr \<lparr>newPath = path, matched = False\<rparr>
                | Some v \<Rightarrow>
                    (case action of
                       Exists \<Rightarrow> Inr \<lparr>newPath = path, matched = True\<rparr>
                     | Equals \<Rightarrow> Inr \<lparr>newPath = path, matched = (v = fvalue)\<rparr>
                     | Start \<Rightarrow> Inr \<lparr>newPath = path, matched = startsWith v fvalue\<rparr>
                     | Any \<Rightarrow> Inr \<lparr>newPath = path, matched = includesStr v fvalue\<rparr>
                     | End \<Rightarrow> Inr \<lparr>newPath = path, matched = endsWith v fvalue\<rparr>
                     | Element \<Rightarrow>
                         Inr \<lparr>newPath = path, matched = (fvalue \<in> set (splitWhitespace v))\<rparr>
                     | _ \<Rightarrow> Inl (Error ''CSS attribute selector action not supported''))))
      | _ \<Rightarrow> Inl (InternalError ''not an attribute fragment''))"

definition matchTag :: "SelFrag \<Rightarrow> DomPath \<Rightarrow> error + Matched" where
  "matchTag frag path =
     (case frag of
        Tag name \<Rightarrow>
          (case snd (lastOf path) of
             None \<Rightarrow> Inl (InternalError ''null element'')
           | Some elem \<Rightarrow> Inr \<lparr>newPath = path, matched = (componentType elem = name)\<rparr>)
      | _ \<Rightarrow> Inl (InternalError ''not a tag fragment''))"

definition matchChild :: "SelFrag \<Rightarrow> DomPath \<Rightarrow> error + Matched" where
  "matchChild frag path =
     (if frag \<noteq> Child then Inl (InternalError ''not a child fragment'')
      else if length path < 1 then Inr \<lparr>newPath = path, matched = False\<rparr>
      else Inr \<lparr>newPath = butlast path, matched = True\<rparr>)"

text \<open>Measures for the termination of the matcher: the sizes of a block and of a selector.\<close>

definition blockWeight :: "ParsedSelectorBlock \<Rightarrow> nat" where
  "blockWeight b = size_list size b"

definition selectorWeight :: "ParsedSelector \<Rightarrow> nat" where
  "selectorWeight s = sum_list (map blockWeight s)"

text \<open>
  The matcher. \<open>matchWithBlock\<close> tests the last fragment of the block against the path
  and goes on with the prefix; \<open>matchWithSelector\<close> tries the blocks of a selector in
  turn; \<open>matchDescendant\<close> tries the ancestor paths \<^verbatim>\<open>path.slice(0, -i)\<close> for
  \<open>i = 1, 2, ...\<close> (\<open>matchDescendantFrom i\<close> is the loop from \<open>i\<close> on).
  \<^verbatim>\<open>matchPseudoConfig[frag.name]\<close> is a lookup in a plain object: for a name inherited
  from \<^verbatim>\<open>Object.prototype\<close> the matcher called is the inherited member, which for
  \<^verbatim>\<open>toString\<close> and \<^verbatim>\<open>constructor\<close> returns a value without \<^verbatim>\<open>matched\<close> (no match) and
  otherwise raises a \<^verbatim>\<open>TypeError\<close>.
\<close>

function matchWithBlock :: "ParsedSelectorBlock \<Rightarrow> DomPath \<Rightarrow> error + bool"
  and matchWithSelector :: "ParsedSelector \<Rightarrow> DomPath \<Rightarrow> error + bool"
  and matchDescendant :: "ParsedSelectorBlock \<Rightarrow> DomPath \<Rightarrow> error + bool"
  and matchDescendantFrom :: "nat \<Rightarrow> ParsedSelectorBlock \<Rightarrow> DomPath \<Rightarrow> error + bool"
  and matchFrag :: "SelFrag \<Rightarrow> DomPath \<Rightarrow> error + Matched"
  and matchPseudo :: "SelFrag \<Rightarrow> DomPath \<Rightarrow> error + Matched"
  and matchNot :: "SelFrag \<Rightarrow> DomPath \<Rightarrow> error + Matched"
where
  "matchWithBlock selBlock path =
     (case lastOf selBlock of
        (prefix, None) \<Rightarrow> Inr True
      | (prefix, Some selFrag) \<Rightarrow>
          if selFrag = Descendant then matchDescendant prefix path
          else (case matchFrag selFrag path of
                  Inl e \<Rightarrow> Inl e
                | Inr m \<Rightarrow>
                    if \<not> matched m then Inr False
                    else if length (newPath m) = 0 then Inr False
                    else matchWithBlock prefix (newPath m)))"
| "matchWithSelector selector path =
     (case selector of
        [] \<Rightarrow> Inr False
      | block # rest \<Rightarrow>
          (case matchWithBlock block path of
             Inl e \<Rightarrow> Inl e
           | Inr b \<Rightarrow> if b then Inr True else matchWithSelector rest path))"
| "matchDescendant selector path =
     (if length selector \<le> 0 then Inl (InternalError ''validated but malformed CSS'')
      else matchDescendantFrom 1 selector path)"
| "matchDescendantFrom i selector path =
     (if i < length path
      then (case matchWithSelector [selector] (take (length path - i) path) of
              Inl e \<Rightarrow> Inl e
            | Inr b \<Rightarrow> if b then Inr True else matchDescendantFrom (Suc i) selector path)
      else Inr False)"
| "matchFrag selFrag path =
     (case selFrag of
        Attribute name action fvalue ignoreCase \<Rightarrow> matchAttribute selFrag path
      | Child \<Rightarrow> matchChild selFrag path
      | Descendant \<Rightarrow> Inl (InternalError ''should not get here'')
      | Pseudo name data \<Rightarrow> matchPseudo selFrag path
      | Tag name \<Rightarrow> matchTag selFrag path
      | Unsupported t \<Rightarrow> Inl (Error ''Unsupported selector fragment''))"
| "matchPseudo frag path =
     (case frag of
        Pseudo name data \<Rightarrow>
          if name = ''root'' then matchRoot frag path
          else if name = ''not'' then matchNot frag path
          else if name \<in> set objectPrototypeKeys
          then (if name = ''toString'' \<or> name = ''constructor''
                then Inr \<lparr>newPath = path, matched = False\<rparr>
                else Inl (TypeError ''matcher is not a function or its this value is undefined''))
          else Inl (Error (''Unsupported CSS pseudo-class :'' @ name))
      | _ \<Rightarrow> Inl (InternalError ''not a pseudo fragment''))"
| "matchNot frag path =
     (case frag of
        Pseudo name data \<Rightarrow>
          (case data of
             NullData \<Rightarrow> Inl (Error ''CSS :not requires at least one selector argument in parentheses'')
           | StringData s \<Rightarrow>
               if s = [] then Inl (Error ''CSS :not requires at least one selector argument in parentheses'')
               else Inl (InternalError ''CSS :not - unexpected string data'')
           | SelectorData sel \<Rightarrow>
               if sel = [] \<or> hd sel = []
               then Inl (Error ''CSS :not requires at least one selector argument in parentheses'')
               else (case matchWithSelector sel path of
                       Inl e \<Rightarrow> Inl e
                     | Inr b \<Rightarrow> Inr \<lparr>newPath = path, matched = \<not> b\<rparr>))
      | _ \<Rightarrow> Inl (InternalError ''not a pseudo fragment''))"
  by pat_completeness auto

termination
proof -
  have bl: "blockWeight xs = blockWeight (butlast xs) + size (last xs) + 1" if "xs \<noteq> []" for xs
    using that unfolding blockWeight_def by (induction xs) auto
  have sl: "selectorWeight sel \<le> size_list (size_list size) sel" for sel
    unfolding selectorWeight_def blockWeight_def by (induction sel) auto
  have sw: "selectorWeight (b # rest) = blockWeight b + selectorWeight rest" for b rest
    by (simp add: selectorWeight_def)
  have s1: "selectorWeight [b] = blockWeight b" for b
    by (simp add: selectorWeight_def)
  have ps: "selectorWeight sel < size (Pseudo n (SelectorData sel))" for sel n
    using sl[of sel] by simp
  show ?thesis
  proof (relation "measures
          [case_sum
             (case_sum (\<lambda>(b, p). 3 * blockWeight b)
                (case_sum (\<lambda>(s, p). 3 * selectorWeight s + 1)
                          (\<lambda>(b, p). 3 * blockWeight b + 2)))
             (case_sum
                (case_sum (\<lambda>(i, b, p). 3 * blockWeight b + 2) (\<lambda>(f, p). 3 * size f + 2))
                (case_sum (\<lambda>(f, p). 3 * size f + 2) (\<lambda>(f, p). 3 * size f + 2))),
           case_sum
             (case_sum (\<lambda>(b, p). 0)
                (case_sum (\<lambda>(s, p). length s) (\<lambda>(b, p). length p + 1)))
             (case_sum
                (case_sum (\<lambda>(i, b, p). length p - i) (\<lambda>(f, p). 2))
                (case_sum (\<lambda>(f, p). 1) (\<lambda>(f, p). 0)))]", goal_cases)
    case 1
    show ?case by simp
  next
    case (2 selBlock path x y x2)
    then have "selBlock \<noteq> []" "x = butlast selBlock"
      by (auto simp: lastOf_def split: if_splits)
    then show ?case using bl[of selBlock] by simp
  next
    case (3 selBlock path x y x2)
    then have "selBlock \<noteq> []" "x2 = last selBlock"
      by (auto simp: lastOf_def split: if_splits)
    then show ?case using bl[of selBlock] by simp
  next
    case (4 selBlock path x y x2 b)
    then have "selBlock \<noteq> []" "x = butlast selBlock"
      by (auto simp: lastOf_def split: if_splits)
    then show ?case using bl[of selBlock] by simp
  next
    case (5 selector path x21 x22)
    then show ?case by (simp add: sw)
  next
    case (6 selector path x21 x22 b)
    then show ?case by (auto simp: sw)
  next
    case (7 selector path)
    then show ?case by simp
  next
    case (8 i selector path)
    then show ?case by (simp add: s1)
  next
    case (9 i selector path b)
    then show ?case by simp
  next
    case (10 selFrag path x41 x42)
    then show ?case by simp
  next
    case (11 frag path x41 x42)
    then show ?case by simp
  next
    case (12 frag path x41 x42 x3)
    then show ?case using ps[of x3 x41] by simp
  qed
qed


declare matchWithBlock.simps [simp del] matchWithSelector.simps [simp del]
  matchDescendant.simps [simp del] matchDescendantFrom.simps [simp del]
  matchFrag.simps [simp del] matchPseudo.simps [simp del] matchNot.simps [simp del]

section \<open>Match registry (css.ts)\<close>

text \<open>
  \<^verbatim>\<open>MatchInfoReg = Map<AdaptElement, MatchInfo>\<close>. Elements and rules are compared by
  reference, so both are abstract identities (\<open>'e\<close>, \<open>'r\<close>). \<^verbatim>\<open>matched?: Set<StyleRule>\<close> is
  an optional set, \<^verbatim>\<open>neverMatch?: true\<close> a flag. \<^verbatim>\<open>getCssMatched\<close> inserts an empty
  record for an element it has not seen, so every function returns the registry.
\<close>

record 'r MatchInfo =
  mi_matched :: "'r set option"
  mi_neverMatch :: bool

type_synonym ('e, 'r) MatchInfoReg = "'e \<rightharpoonup> 'r MatchInfo"

definition emptyMatchInfo :: "'r MatchInfo" where
  "emptyMatchInfo = \<lparr>mi_matched = None, mi_neverMatch = False\<rparr>"

definition createMatchInfoReg :: "('e, 'r) MatchInfoReg" where
  "createMatchInfoReg = Map.empty"

definition getCssMatched ::
  "('e, 'r) MatchInfoReg \<Rightarrow> 'e \<Rightarrow> ('e, 'r) MatchInfoReg \<times> 'r MatchInfo" where
  "getCssMatched reg el =
     (case reg el of
        None \<Rightarrow> (reg(el \<mapsto> emptyMatchInfo), emptyMatchInfo)
      | Some mi \<Rightarrow> (reg, mi))"

definition ruleHasMatched ::
  "('e, 'r) MatchInfoReg \<Rightarrow> 'e \<Rightarrow> 'r \<Rightarrow> ('e, 'r) MatchInfoReg \<times> bool" where
  "ruleHasMatched reg el r =
     (let (reg1, m) = getCssMatched reg el
      in (reg1, (case mi_matched m of None \<Rightarrow> False | Some s \<Rightarrow> r \<in> s)))"

definition ruleMatches ::
  "('e, 'r) MatchInfoReg \<Rightarrow> 'e \<Rightarrow> 'r \<Rightarrow> ('e, 'r) MatchInfoReg" where
  "ruleMatches reg el r =
     (let (reg1, m) = getCssMatched reg el;
          s = (case mi_matched m of None \<Rightarrow> {} | Some s0 \<Rightarrow> s0)
      in reg1(el \<mapsto> m\<lparr>mi_matched := Some (insert r s)\<rparr>))"

definition neverMatch :: "('e, 'r) MatchInfoReg \<Rightarrow> 'e \<Rightarrow> ('e, 'r) MatchInfoReg" where
  "neverMatch reg el =
     (let (reg1, m) = getCssMatched reg el
      in reg1(el \<mapsto> m\<lparr>mi_neverMatch := True\<rparr>))"

definition canMatch :: "('e, 'r) MatchInfoReg \<Rightarrow> 'e \<Rightarrow> ('e, 'r) MatchInfoReg \<times> bool" where
  "canMatch reg el =
     (let (reg1, m) = getCssMatched reg el
      in (reg1, \<not> mi_neverMatch m))"

definition copyRuleMatches ::
  "('e, 'r) MatchInfoReg \<Rightarrow> 'e \<Rightarrow> 'e \<Rightarrow> ('e, 'r) MatchInfoReg" where
  "copyRuleMatches reg fromEl toEl =
     (let (reg1, from) = getCssMatched reg fromEl;
          (reg2, to) = getCssMatched reg1 toEl
      in if mi_neverMatch from then reg2(toEl \<mapsto> to\<lparr>mi_neverMatch := True\<rparr>)
         else (case mi_matched from of
                 None \<Rightarrow> reg2
               | Some fs \<Rightarrow>
                   reg2(toEl \<mapsto> to\<lparr>mi_matched :=
                     Some ((case mi_matched to of None \<Rightarrow> {} | Some ts \<Rightarrow> ts) \<union> fs)\<rparr>)))"



datatype ('e, 'r) RegOp =
    OpRuleHasMatched 'e 'r
  | OpRuleMatches 'e 'r
  | OpNeverMatch 'e
  | OpCanMatch 'e
  | OpCopyRuleMatches 'e 'e

fun applyRegOp :: "('e, 'r) MatchInfoReg \<Rightarrow> ('e, 'r) RegOp \<Rightarrow> ('e, 'r) MatchInfoReg" where
  "applyRegOp reg (OpRuleHasMatched el r) = fst (ruleHasMatched reg el r)"
| "applyRegOp reg (OpRuleMatches el r) = ruleMatches reg el r"
| "applyRegOp reg (OpNeverMatch el) = neverMatch reg el"
| "applyRegOp reg (OpCanMatch el) = fst (canMatch reg el)"
| "applyRegOp reg (OpCopyRuleMatches fromEl toEl) = copyRuleMatches reg fromEl toEl"

definition recordedMatch :: "('e, 'r) MatchInfoReg \<Rightarrow> 'e \<Rightarrow> 'r \<Rightarrow> bool" where
  "recordedMatch reg el r =
     (case reg el of None \<Rightarrow> False
      | Some m \<Rightarrow> (case mi_matched m of None \<Rightarrow> False | Some s \<Rightarrow> r \<in> s))"

section \<open>Evaluating style rules during a build pass\<close>

text \<open>
  A style rule as \<^verbatim>\<open>buildStyle\<close> of \<^verbatim>\<open>css.ts\<close> makes it: \<^verbatim>\<open>match\<close> evaluates the parsed
  selector, which its closure holds, on a path (\<open>rule_match\<close>). The registry compares
  rules by reference, so a rule carries its identity (\<open>rule_ref\<close>). An element of the
  path of a build is an instance (its identity, the key of the registry) with the
  content that the matcher reads.
\<close>

record StyleRule =
  rule_ref :: nat
  rule_selector :: ParsedSelector

definition rule_match :: "StyleRule \<Rightarrow> DomPath \<Rightarrow> error + bool" where
  "rule_match r path = matchWithSelector (rule_selector r) path"

type_synonym 'e MountedElement = "'e \<times> AdaptElement"

text \<open>
  Modelled from the spec: how the build engine evaluates a style rule at an element
  (\<^verbatim>\<open>dom.ts\<close>, which is not among the sources; \<^verbatim>\<open>css.ts\<close> has the registry functions
  that it calls). The spec: the match registry maps a mounted element to the set of
  rules already matched against this exact instance and a never-match flag used to cut
  off the search; a rule never matches the same instance twice; matching consults the
  per-element match state for the do-not-rematch bookkeeping; if the style sheet yields
  an override for the current path, the element is replaced by the override's result;
  the registry is scoped to a build pass. So a rule is evaluated against the deepest
  element of the path: it matches when the element may match (\<^verbatim>\<open>canMatch\<close>), the rule
  has not matched this instance (\<^verbatim>\<open>ruleHasMatched\<close>) and its selector matches the path.
  The match is then recorded (\<^verbatim>\<open>ruleMatches\<close>) and the override of the rule applied to
  the element: \<open>ss_applied\<close> is the log of these applications. \<open>evaluateRule\<close> returns
  whether the rule matched, or what the selector threw. A pass starts from a fresh
  registry (\<open>newPass\<close>) and is a sequence of such evaluations, at any elements and in
  any order, with calls of the registry functions in between (those of the overrides,
  such as \<^verbatim>\<open>ruleNoRematch\<close>, and those of the engine).
\<close>

record 'e StyleState =
  ss_reg :: "('e, StyleRule) MatchInfoReg"
  ss_applied :: "('e \<times> StyleRule) list"

definition evaluateRule ::
  "'e StyleState \<Rightarrow> 'e MountedElement list \<Rightarrow> StyleRule \<Rightarrow> (error + bool) \<times> 'e StyleState" where
  "evaluateRule st path rule =
     (if path = [] then (Inr False, st)
      else
        (let element = fst (last path);
             (reg1, can) = canMatch (ss_reg st) element
         in if \<not> can then (Inr False, st\<lparr>ss_reg := reg1\<rparr>)
            else
              (let (reg2, has) = ruleHasMatched reg1 element rule
               in if has then (Inr False, st\<lparr>ss_reg := reg2\<rparr>)
                  else
                    (case rule_match rule (map snd path) of
                       Inl e \<Rightarrow> (Inl e, st\<lparr>ss_reg := reg2\<rparr>)
                     | Inr False \<Rightarrow> (Inr False, st\<lparr>ss_reg := reg2\<rparr>)
                     | Inr True \<Rightarrow>
                         (Inr True,
                          st\<lparr>ss_reg := ruleMatches reg2 element rule,
                             ss_applied := ss_applied st @ [(element, rule)]\<rparr>)))))"

datatype 'e StyleStep =
    Evaluate "'e MountedElement list" StyleRule
  | Registry "('e, StyleRule) RegOp"

fun styleStep :: "'e StyleState \<Rightarrow> 'e StyleStep \<Rightarrow> 'e StyleState" where
  "styleStep st (Evaluate path rule) = snd (evaluateRule st path rule)"
| "styleStep st (Registry op) = st\<lparr>ss_reg := applyRegOp (ss_reg st) op\<rparr>"

definition newPass :: "'e StyleState" where
  "newPass = \<lparr>ss_reg = createMatchInfoReg, ss_applied = []\<rparr>"

section \<open>Observer registry (observers/registry.ts)\<close>

text \<open>
  What an observer throws (or rejects with): an \<^verbatim>\<open>Error\<close> with its message, or another
  value, given by the text that \<^verbatim>\<open>util.inspect\<close> makes of it. An observer plugin is its
  \<^verbatim>\<open>observe\<close> method: from the queries to what it throws or the observations
  it returns. The queries passed are \<^verbatim>\<open>executedQueries[name]\<close> if that is truthy (an
  array, or an inherited member), else \<^verbatim>\<open>[]\<close>.
\<close>

datatype thrown = ErrorObj string | NonError string

fun thrownMessage :: "thrown \<Rightarrow> string" where
  "thrownMessage (ErrorObj m) = m"
| "thrownMessage (NonError inspected) = inspected"

datatype 'q queriesArg = Queries "'q list" | InheritedMember

type_synonym ('q, 'o) ObserverPlugin = "'q queriesArg \<Rightarrow> thrown + 'o"

type_synonym ('q, 'o) ObserverRecord = "string \<rightharpoonup> ('q, 'o) ObserverPlugin"

record ('q, 'o) Observation =
  obs_observations :: 'o
  obs_queries :: "'q queriesArg"

type_synonym ('q, 'o) Observations = "string \<rightharpoonup> ('q, 'o) Observation"

text \<open>
  \<^verbatim>\<open>registerObserver\<close> refuses a name that is \<^verbatim>\<open>in observers\<close>, own or inherited
  (the name is \<^verbatim>\<open>nameIn\<close> or the constructor's name).
\<close>

definition registerObserver ::
  "('q, 'o) ObserverRecord \<Rightarrow> ('q, 'o) ObserverPlugin \<Rightarrow> string \<Rightarrow>
   string + ('q, 'o) ObserverRecord \<times> string" where
  "registerObserver observers obs name =
     (if jsGet observers name \<noteq> Undefined
      then Inl (''Attempt to register observer with duplicate name '' @ [CHR 0x27] @ name @ [CHR 0x27])
      else Inr (observers(name \<mapsto> obs), name))"

text \<open>
  \<^verbatim>\<open>observe\<close> starts one asynchronous task for every name of \<^verbatim>\<open>observerNames\<close> whose
  lookup in \<^verbatim>\<open>observers\<close> is not \<^verbatim>\<open>undefined\<close> (\<open>startTasks\<close>, the loop that fills
  \<^verbatim>\<open>waitFors\<close>), and waits for all of them (\<^verbatim>\<open>Promise.all\<close> over promises that never
  reject). When a task settles (\<open>settle\<close>), it stores the observations under its name,
  or logs the warning and pushes the error. The tasks settle in an order that the
  program does not fix: \<open>schedule\<close> gives it, as a permutation of the started tasks.
  \<open>observe\<close> returns the warnings logged and what the call returns or throws. An
  observer answers the same queries in the same way during one call. Calling
  \<^verbatim>\<open>obs.observe\<close> on an inherited member throws a \<^verbatim>\<open>TypeError\<close>, which the task
  catches like any error of an observer. The default of \<^verbatim>\<open>observerNames\<close> is the
  list of the registered names.
\<close>

record ('q, 'o) ObserveTask =
  ot_name :: string
  ot_obs :: "('q, 'o) ObserverPlugin jsprop"
  ot_queries :: "'q queriesArg"

definition taskFor ::
  "('q, 'o) ObserverRecord \<Rightarrow> (string \<rightharpoonup> 'q list) \<Rightarrow> string \<Rightarrow> ('q, 'o) ObserveTask option" where
  "taskFor observers executedQueries name =
     (let obs = jsGet observers name in
      if obs = Undefined then None
      else Some \<lparr>ot_name = name, ot_obs = obs,
                 ot_queries = (case jsGet executedQueries name of
                                 Own qs \<Rightarrow> Queries qs
                               | Inherited \<Rightarrow> InheritedMember
                               | Undefined \<Rightarrow> Queries [])\<rparr>)"

fun startTasks ::
  "('q, 'o) ObserverRecord \<Rightarrow> (string \<rightharpoonup> 'q list) \<Rightarrow> string list \<Rightarrow> ('q, 'o) ObserveTask list" where
  "startTasks observers executedQueries [] = []"
| "startTasks observers executedQueries (name # rest) =
     (case taskFor observers executedQueries name of
        None \<Rightarrow> startTasks observers executedQueries rest
      | Some task \<Rightarrow> task # startTasks observers executedQueries rest)"

definition callObserve :: "('q, 'o) ObserveTask \<Rightarrow> thrown + 'o" where
  "callObserve task =
     (case ot_obs task of
        Own plugin \<Rightarrow> plugin (ot_queries task)
      | Inherited \<Rightarrow> Inl (ErrorObj ''obs.observe is not a function'')
      | Undefined \<Rightarrow> Inl (ErrorObj ''Cannot read property observe of undefined''))"

record ('q, 'o) ObserveState =
  os_ret :: "('q, 'o) Observations"
  os_errors :: "string list"
  os_warnings :: "string list"

definition observeErrorMessage :: "string \<Rightarrow> thrown \<Rightarrow> string" where
  "observeErrorMessage name e = ''Error observing for '' @ name @ '': '' @ thrownMessage e"

definition settle :: "('q, 'o) ObserveState \<Rightarrow> ('q, 'o) ObserveTask \<Rightarrow> ('q, 'o) ObserveState" where
  "settle st task =
     (case callObserve task of
        Inr observations \<Rightarrow>
          st\<lparr>os_ret := (os_ret st)(ot_name task \<mapsto>
                \<lparr>obs_observations = observations, obs_queries = ot_queries task\<rparr>)\<rparr>
      | Inl e \<Rightarrow>
          (let msg = observeErrorMessage (ot_name task) e
           in st\<lparr>os_warnings := os_warnings st @ [msg], os_errors := os_errors st @ [msg]\<rparr>))"

fun joinLines :: "string list \<Rightarrow> string" where
  "joinLines [] = []"
| "joinLines [x] = x"
| "joinLines (x # y # ys) = x @ [CHR 0x0A] @ joinLines (y # ys)"

record ('q, 'o) ObserveError =
  oe_message :: string
  oe_observations :: "('q, 'o) Observations"

definition observe ::
  "('q, 'o) ObserverRecord \<Rightarrow> (string \<rightharpoonup> 'q list) \<Rightarrow> string list \<Rightarrow>
   (('q, 'o) ObserveTask list \<Rightarrow> ('q, 'o) ObserveTask list) \<Rightarrow>
   string list \<times> (('q, 'o) ObserveError + ('q, 'o) Observations)" where
  "observe observers executedQueries observerNames schedule =
     (let waitFors = startTasks observers executedQueries observerNames;
          st = foldl settle \<lparr>os_ret = Map.empty, os_errors = [], os_warnings = []\<rparr>
                 (schedule waitFors)
      in (os_warnings st,
          if os_errors st \<noteq> []
          then Inl \<lparr>oe_message = ''Errors during observations:'' @ [CHR 0x0A] @ joinLines (os_errors st),
                    oe_observations = os_ret st\<rparr>
          else Inr (os_ret st)))"





section \<open>Deployment status tracker (deploy/status_tracker.ts)\<close>

subsection \<open>Deploy status types\<close>

text \<open>
  Modelled from the spec: the status types and helpers of \<^verbatim>\<open>deploy_types.ts\<close>, which is
  not among the sources. The spec gives the states
  \<^verbatim>\<open>Initial -> Waiting -> {Deploying, Destroying, Proxying...} -> {Deployed, Destroyed} | Failed\<close>:
  \<open>Initial\<close> and \<open>Waiting\<close> are pre-action, \<open>Deployed\<close> and \<open>Destroyed\<close> are
  goal-terminal, \<open>Failed\<close> is terminal. \<open>DeployStatus\<close> is the status that is counted and
  persisted; \<open>DeployStatusExt\<close> adds the internal proxying states, which
  \<open>toDeployStatus\<close> maps to the in-progress status they stand for. A \<open>GoalStatus\<close> is
  \<open>Deployed\<close> or \<open>Destroyed\<close>; \<open>goalToInProgress\<close> is its in-progress variant. The
  overall deployment status (\<open>DeployOpStatus\<close>) is a \<open>DeployStatus\<close> or \<open>StateChanged\<close>.
  \<open>deployStatusKeys\<close> is \<^verbatim>\<open>Object.keys(DeployStatus)\<close>.
\<close>

datatype DeployStatus =
  Initial | Waiting | Deploying | Destroying | Deployed | Failed | Destroyed

datatype DeployStatusExt = Std DeployStatus | ProxyDeploying | ProxyDestroying

datatype GoalStatus = GoalDeployed | GoalDestroyed

datatype DeployOpStatus = OpStatus DeployStatus | StateChanged

definition deployStatusKeys :: "DeployStatus list" where
  "deployStatusKeys = [Initial, Waiting, Deploying, Destroying, Deployed, Failed, Destroyed]"

fun toDeployStatus :: "DeployStatusExt \<Rightarrow> DeployStatus" where
  "toDeployStatus ProxyDeploying = Deploying"
| "toDeployStatus ProxyDestroying = Destroying"
| "toDeployStatus (Std s) = s"

fun goalOf :: "GoalStatus \<Rightarrow> DeployStatus" where
  "goalOf GoalDeployed = Deployed"
| "goalOf GoalDestroyed = Destroyed"

fun goalToInProgress :: "GoalStatus \<Rightarrow> DeployStatus" where
  "goalToInProgress GoalDeployed = Deploying"
| "goalToInProgress GoalDestroyed = Destroying"

definition isGoalStatus :: "DeployStatusExt \<Rightarrow> bool" where
  "isGoalStatus ds = (ds = Std Deployed \<or> ds = Std Destroyed)"

definition isFinalStatus :: "DeployStatusExt \<Rightarrow> bool" where
  "isFinalStatus ds = (ds = Std Failed \<or> isGoalStatus ds)"

definition isInProgress :: "DeployStatusExt \<Rightarrow> bool" where
  "isInProgress stat = (stat = Std Deploying \<or> stat = Std Destroying)"

definition isProxying :: "DeployStatusExt \<Rightarrow> bool" where
  "isProxying stat = (stat = ProxyDeploying \<or> stat = ProxyDestroying)"

subsection \<open>Nodes, elements and progress tasks\<close>

text \<open>
  An \<^verbatim>\<open>EPNode\<close> is a key of the tracker's maps, so it carries its identity
  (\<open>node_ref\<close>); \<open>node_element\<close> is \<^verbatim>\<open>n.element\<close> and \<open>node_activeAction\<close> is whether
  \<^verbatim>\<open>n.waitInfo.activeAction\<close> is set. Of an element the tracker reads \<^verbatim>\<open>id\<close>,
  \<^verbatim>\<open>componentName\<close>, \<^verbatim>\<open>built()\<close>, \<^verbatim>\<open>deployedWhenIsTrivial\<close> and whether
  \<^verbatim>\<open>isFinalDomElement\<close> holds of it (\<open>el_isFinalDom\<close>).
\<close>

record Element =
  el_id :: string
  el_componentName :: string
  el_isFinalDom :: bool
  el_built :: bool
  el_deployedWhenIsTrivial :: bool

record EPNode =
  node_ref :: nat
  node_element :: "Element option"
  node_activeAction :: bool

text \<open>
  Modelled from the spec: the progress-reporting handles (\<^verbatim>\<open>TaskObserver\<close> of
  \<^verbatim>\<open>@adpt/utils\<close>, not among the sources). A task has a state that
  \<^verbatim>\<open>started\<close>, \<^verbatim>\<open>complete\<close>, \<^verbatim>\<open>failed\<close> and \<^verbatim>\<open>skipped\<close> set. The tasks of a group are
  objects addressed by name; \<^verbatim>\<open>add\<close> with \<^verbatim>\<open>createOnly: false\<close> returns the task
  of that name when there is one, so two nodes whose elements share an id share a task.
\<close>

datatype TaskState = TaskCreated | TaskStarted | TaskComplete | TaskFailed | TaskSkipped

record Task =
  task_state :: TaskState
  task_description :: string
  task_trivial :: bool
  task_error :: "string option"

definition task_failed :: "string \<Rightarrow> Task \<Rightarrow> Task" where
  "task_failed err t = t\<lparr>task_state := TaskFailed, task_error := Some err\<rparr>"

definition task_skipped :: "Task \<Rightarrow> Task" where
  "task_skipped t = t\<lparr>task_state := TaskSkipped\<rparr>"

definition task_started :: "Task \<Rightarrow> Task" where
  "task_started t = t\<lparr>task_state := TaskStarted\<rparr>"

definition task_complete :: "Task \<Rightarrow> Task" where
  "task_complete t = t\<lparr>task_state := TaskComplete\<rparr>"

type_synonym TaskGroup = "string \<rightharpoonup> Task"

definition tGroup_add :: "TaskGroup \<Rightarrow> string \<Rightarrow> string \<Rightarrow> bool \<Rightarrow> TaskGroup" where
  "tGroup_add g name desc trivial =
     (case g name of
        Some t \<Rightarrow> g
      | None \<Rightarrow> g(name \<mapsto> \<lparr>task_state = TaskCreated, task_description = desc,
                           task_trivial = trivial, task_error = None\<rparr>))"

subsection \<open>The deployment store\<close>

text \<open>
  Modelled from the spec: the deployment store (\<^verbatim>\<open>server/deployment.ts\<close>, an external
  collaborator) is the log of the writes it received (\<^verbatim>\<open>status\<close>,
  \<^verbatim>\<open>elementStatus\<close>, \<^verbatim>\<open>commitEntry\<close>) and the counter from which \<^verbatim>\<open>newStepID\<close>
  allocates. \<open>HistoryStatus\<close> has the four members that \<^verbatim>\<open>buildAndDeploy.ts\<close> names.
\<close>

record DeployStepID =
  step_deployOpID :: nat
  step_deployStepNum :: nat

record ElementStatus =
  es_deployStatus :: DeployStatus
  es_error :: "string option"

record StatusPatch =
  sp_deployStatus :: DeployOpStatus
  sp_goalStatus :: "GoalStatus option"
  sp_elementStatus :: "(string \<times> ElementStatus) list option"

datatype HistoryStatus = HComplete | HPreAct | HFailed | HSuccess

record CommitData =
  cd_status :: HistoryStatus
  cd_dataDir :: string
  cd_dependenciesJson :: string
  cd_domXml :: string
  cd_observationsJson :: string

record HistoryEntry = CommitData +
  he_fileName :: string
  he_projectRoot :: string
  he_stackName :: string
  he_stateJson :: string

datatype DeployCall =
    StatusCall DeployStepID StatusPatch
  | ElementStatusCall DeployStepID "(string \<times> ElementStatus) list"
  | CommitEntryCall HistoryEntry

record Deployment =
  dep_calls :: "DeployCall list"
  dep_nextStepNum :: nat

definition newStepID :: "Deployment \<Rightarrow> nat \<Rightarrow> DeployStepID \<times> Deployment" where
  "newStepID d opID =
     (\<lparr>step_deployOpID = opID, step_deployStepNum = dep_nextStepNum d\<rparr>,
      d\<lparr>dep_nextStepNum := Suc (dep_nextStepNum d)\<rparr>)"

definition deployment_status :: "Deployment \<Rightarrow> DeployStepID \<Rightarrow> StatusPatch \<Rightarrow> Deployment" where
  "deployment_status d stepID patch = d\<lparr>dep_calls := dep_calls d @ [StatusCall stepID patch]\<rparr>"

definition deployment_elementStatus ::
  "Deployment \<Rightarrow> DeployStepID \<Rightarrow> (string \<times> ElementStatus) list \<Rightarrow> Deployment" where
  "deployment_elementStatus d stepID patch =
     d\<lparr>dep_calls := dep_calls d @ [ElementStatusCall stepID patch]\<rparr>"

definition commitEntry :: "Deployment \<Rightarrow> HistoryEntry \<Rightarrow> Deployment" where
  "commitEntry d entry = d\<lparr>dep_calls := dep_calls d @ [CommitEntryCall entry]\<rparr>"

subsection \<open>StatusTrackerImpl\<close>

text \<open>
  The counters are \<^verbatim>\<open>Record<DeployStatus, number>\<close>. \<open>statMap\<close> and \<open>taskMap\<close> are
  \<^verbatim>\<open>Map\<close>s: association lists with \<^verbatim>\<open>Map.set\<close> as \<open>AList.update\<close> (a new key goes
  last, a known key keeps its place). \<open>taskMap\<close> holds references to the tasks of the
  group \<open>tGroup\<close>.
\<close>

record StatusTrackerOptions =
  opt_dryRun :: bool
  opt_goalStatus :: GoalStatus
  opt_nodes :: "EPNode list"
  opt_deployOpID :: nat

record StatusTracker =
  dryRun :: bool
  goalStatus :: GoalStatus
  nodeStatus :: "DeployStatus \<Rightarrow> int"
  nonPrimStatus :: "DeployStatus \<Rightarrow> int"
  deployOpID :: nat
  primStatus :: "DeployStatus \<Rightarrow> int"
  statMap :: "(EPNode \<times> DeployStatusExt) list"
  taskMap :: "(EPNode \<times> string) list"
  tGroup :: TaskGroup
  stepID :: "DeployStepID option"

definition shouldTrackStatus :: "EPNode \<Rightarrow> bool" where
  "shouldTrackStatus n = (node_element n \<noteq> None)"

definition isTrivial :: "EPNode \<Rightarrow> bool" where
  "isTrivial n =
     (if node_activeAction n then False
      else (case node_element n of
              Some el \<Rightarrow> if el_built el then el_deployedWhenIsTrivial el else True
            | None \<Rightarrow> True))"

text \<open>\<^verbatim>\<open>newStatus\<close>: every key of \<open>DeployStatus\<close> at 0; \<open>incr\<close> and \<open>decr\<close> are \<^verbatim>\<open>++\<close> and \<^verbatim>\<open>--\<close> on one bucket.\<close>

definition newStatus :: "DeployStatus \<Rightarrow> int" where
  "newStatus = (\<lambda>k. 0)"

definition incr :: "(DeployStatus \<Rightarrow> int) \<Rightarrow> DeployStatus \<Rightarrow> DeployStatus \<Rightarrow> int" where
  "incr c k = c(k := c k + 1)"

definition decr :: "(DeployStatus \<Rightarrow> int) \<Rightarrow> DeployStatus \<Rightarrow> DeployStatus \<Rightarrow> int" where
  "decr c k = c(k := c k - 1)"

text \<open>
  The constructor: \<^verbatim>\<open>nodeStatus.Waiting = options.nodes.length\<close>, then one step per node
  of \<^verbatim>\<open>options.nodes.map\<close> (\<open>constructor_node\<close>), which counts an element-bearing node as
  primitive or not, registers its task and enters the node in \<open>statMap\<close> as \<open>Waiting\<close>.
\<close>

definition constructor_node :: "StatusTracker \<Rightarrow> EPNode \<Rightarrow> StatusTracker" where
  "constructor_node t n =
     (let t1 =
        (case node_element n of
           None \<Rightarrow> t
         | Some el \<Rightarrow>
             (let t2 = (if el_isFinalDom el
                        then t\<lparr>primStatus := incr (primStatus t) Waiting\<rparr>
                        else t\<lparr>nonPrimStatus := incr (nonPrimStatus t) Waiting\<rparr>)
              in if shouldTrackStatus n
                 then t2\<lparr>tGroup := tGroup_add (tGroup t2) (el_id el) (el_componentName el) (isTrivial n),
                         taskMap := AList.update n (el_id el) (taskMap t2)\<rparr>
                 else t2))
      in t1\<lparr>statMap := AList.update n (Std Waiting) (statMap t1)\<rparr>)"

definition StatusTrackerImpl :: "StatusTrackerOptions \<Rightarrow> StatusTracker" where
  "StatusTrackerImpl options =
     foldl constructor_node
       \<lparr>dryRun = opt_dryRun options,
        goalStatus = opt_goalStatus options,
        nodeStatus = newStatus(Waiting := int (length (opt_nodes options))),
        nonPrimStatus = newStatus,
        deployOpID = opt_deployOpID options,
        primStatus = newStatus,
        statMap = [],
        taskMap = [],
        tGroup = Map.empty,
        stepID = None\<rparr>
       (opt_nodes options)"

text \<open>
  \<^verbatim>\<open>initDeploymentStatus\<close> returns at once in dry-run mode; otherwise it allocates the
  step ID and writes the initial status of the deployment and of every element.
\<close>

definition initElementStatus :: "(EPNode \<times> DeployStatusExt) list \<Rightarrow> (string \<times> ElementStatus) list" where
  "initElementStatus sm =
     foldl (\<lambda>acc (n, extStatus).
              (case node_element n of
                 None \<Rightarrow> acc
               | Some el \<Rightarrow>
                   AList.update (el_id el)
                     \<lparr>es_deployStatus = toDeployStatus extStatus, es_error = None\<rparr> acc))
       [] sm"

definition initDeploymentStatus :: "StatusTracker \<times> Deployment \<Rightarrow> StatusTracker \<times> Deployment" where
  "initDeploymentStatus td =
     (let (t, d) = td in
      if dryRun t then (t, d)
      else
        (let (sid, d1) = newStepID d (deployOpID t);
             deploymentDeployStatus = goalToInProgress (goalStatus t);
             elementStatus = initElementStatus (statMap t)
         in (t\<lparr>stepID := Some sid\<rparr>,
             deployment_status d1 sid
               \<lparr>sp_deployStatus = OpStatus deploymentDeployStatus,
                sp_goalStatus = Some (goalStatus t),
                sp_elementStatus = Some elementStatus\<rparr>)))"

definition createStatusTracker ::
  "StatusTrackerOptions \<Rightarrow> Deployment \<Rightarrow> StatusTracker \<times> Deployment" where
  "createStatusTracker options d = initDeploymentStatus (StatusTrackerImpl options, d)"

text \<open>
  The methods \<^verbatim>\<open>get\<close>, \<^verbatim>\<open>set\<close> and \<^verbatim>\<open>complete\<close> are \<open>st_get\<close>, \<open>st_set\<close> and
  \<open>st_complete\<close>. \<open>err\<close> is the message of the \<^verbatim>\<open>Error\<close> passed, if one is.
  \<open>st_set\<close> returns what the call returns or throws, together with the tracker and the
  store as the call leaves them.
\<close>

definition st_get :: "StatusTracker \<Rightarrow> EPNode \<Rightarrow> error + DeployStatusExt" where
  "st_get t n =
     (case map_of (statMap t) n of
        None \<Rightarrow> Inl (InternalError ''Unrecognized node'')
      | Some stat \<Rightarrow> Inr stat)"

definition getTask :: "StatusTracker \<Rightarrow> EPNode \<Rightarrow> error + string option" where
  "getTask t n =
     (if \<not> shouldTrackStatus n then Inr None
      else (case map_of (taskMap t) n of
              None \<Rightarrow> Inl (InternalError ''No task observer found for node'')
            | Some task \<Rightarrow> Inr (Some task)))"

definition modifyTask :: "StatusTracker \<Rightarrow> string \<Rightarrow> (Task \<Rightarrow> Task) \<Rightarrow> StatusTracker" where
  "modifyTask t task f =
     (case tGroup t task of
        None \<Rightarrow> t
      | Some tk \<Rightarrow> t\<lparr>tGroup := (tGroup t)(task \<mapsto> f tk)\<rparr>)"

definition taskStateOf :: "StatusTracker \<Rightarrow> string \<Rightarrow> TaskState option" where
  "taskStateOf t task = map_option task_state (tGroup t task)"

definition updateTask ::
  "StatusTracker \<Rightarrow> EPNode \<Rightarrow> DeployStatusExt \<Rightarrow> DeployStatus \<Rightarrow> string option \<Rightarrow>
   string option \<Rightarrow> error + StatusTracker" where
  "updateTask t n oldStat newStat err description =
     (case getTask t n of
        Inl e \<Rightarrow> Inl e
      | Inr None \<Rightarrow> Inr t
      | Inr (Some task) \<Rightarrow>
          (let t1 = (case description of
                       Some desc \<Rightarrow>
                         if desc \<noteq> [] then modifyTask t task (\<lambda>tk. tk\<lparr>task_description := desc\<rparr>)
                         else t
                     | None \<Rightarrow> t)
           in (case err of
                 Some e \<Rightarrow> Inr (modifyTask t1 task (task_failed e))
               | None \<Rightarrow>
                   if dryRun t1 then
                     (if isGoalStatus (Std newStat) then
                        (if taskStateOf t1 task = Some TaskCreated \<or>
                            taskStateOf t1 task = Some TaskStarted
                         then Inr (modifyTask t1 task task_skipped)
                         else Inr t1)
                      else Inr t1)
                   else
                     (if isInProgress (Std newStat) \<and> \<not> isProxying oldStat then
                        (if taskStateOf t1 task = Some TaskCreated
                         then Inr (modifyTask t1 task task_started)
                         else Inr t1)
                      else if isGoalStatus (Std newStat) then
                        (if taskStateOf t1 task = Some TaskStarted
                         then Inr (modifyTask t1 task task_complete)
                         else Inr t1)
                      else Inr t1))))"

definition updateCount ::
  "StatusTracker \<Rightarrow> EPNode \<Rightarrow> DeployStatus \<Rightarrow> DeployStatus \<Rightarrow> StatusTracker" where
  "updateCount t n oldStat newStat =
     (let t1 = t\<lparr>nodeStatus := incr (decr (nodeStatus t) oldStat) newStat\<rparr>
      in (case node_element n of
            None \<Rightarrow> t1
          | Some el \<Rightarrow>
              if el_isFinalDom el
              then t1\<lparr>primStatus := incr (decr (primStatus t1) oldStat) newStat\<rparr>
              else t1\<lparr>nonPrimStatus := incr (decr (nonPrimStatus t1) oldStat) newStat\<rparr>))"

definition writeStatus ::
  "StatusTracker \<Rightarrow> Deployment \<Rightarrow> EPNode \<Rightarrow> string option \<Rightarrow> error + Deployment" where
  "writeStatus t d n err =
     (case (node_element n, stepID t) of
        (Some el, Some sid) \<Rightarrow>
          (case st_get t n of
             Inl e \<Rightarrow> Inl e
           | Inr statExt \<Rightarrow>
               Inr (deployment_elementStatus d sid
                      [(el_id el, \<lparr>es_deployStatus = toDeployStatus statExt, es_error = err\<rparr>)]))
      | _ \<Rightarrow> Inr d)"

definition st_set ::
  "StatusTracker \<times> Deployment \<Rightarrow> EPNode \<Rightarrow> DeployStatusExt \<Rightarrow> string option \<Rightarrow>
   string option \<Rightarrow> (error + bool) \<times> StatusTracker \<times> Deployment" where
  "st_set td n statExt err description =
     (let (t, d) = td in
      case st_get t n of
        Inl e \<Rightarrow> (Inl e, t, d)
      | Inr oldStat \<Rightarrow>
          if statExt = oldStat \<or> isFinalStatus oldStat then (Inr False, t, d)
          else
            (let deployStatus = toDeployStatus statExt;
                 t1 = t\<lparr>statMap := AList.update n statExt (statMap t)\<rparr>;
                 t2 = updateCount t1 n (toDeployStatus oldStat) deployStatus
             in (case updateTask t2 n oldStat deployStatus err description of
                   Inl e \<Rightarrow> (Inl e, t2, d)
                 | Inr t3 \<Rightarrow>
                     (case writeStatus t3 d n err of
                        Inl e \<Rightarrow> (Inl e, t3, d)
                      | Inr d1 \<Rightarrow> (Inr True, t3, d1)))))"

definition isFinal :: "StatusTracker \<Rightarrow> EPNode \<Rightarrow> error + bool" where
  "isFinal t n = (case st_get t n of Inl e \<Rightarrow> Inl e | Inr s \<Rightarrow> Inr (isFinalStatus s))"

definition isActive :: "StatusTracker \<Rightarrow> EPNode \<Rightarrow> error + bool" where
  "isActive t n = (case st_get t n of Inl e \<Rightarrow> Inl e | Inr s \<Rightarrow> Inr (\<not> isFinalStatus s))"

record ExecuteComplete =
  ec_deploymentStatus :: DeployOpStatus
  ec_nodeStatus :: "DeployStatus \<Rightarrow> int"
  ec_nonPrimStatus :: "DeployStatus \<Rightarrow> int"
  ec_primStatus :: "DeployStatus \<Rightarrow> int"
  ec_stateChanged :: bool

definition st_complete ::
  "StatusTracker \<times> Deployment \<Rightarrow> bool \<Rightarrow> (error + ExecuteComplete) \<times> Deployment" where
  "st_complete td stateChanged =
     (let (t, d) = td in
      if nodeStatus t Initial > 0
      then (Inl (InternalError ''Nodes should not be in Initial state''), d)
      else
        (let atGoal = nodeStatus t Deployed + nodeStatus t Destroyed;
             deploymentStatus =
               (if nodeStatus t Failed > 0 then OpStatus Failed
                else if atGoal = int (length (statMap t)) then OpStatus (goalOf (goalStatus t))
                else if stateChanged then StateChanged
                else OpStatus (goalToInProgress (goalStatus t)));
             d1 = (case stepID t of
                     Some sid \<Rightarrow>
                       deployment_status d sid
                         \<lparr>sp_deployStatus = deploymentStatus, sp_goalStatus = None,
                          sp_elementStatus = None\<rparr>
                   | None \<Rightarrow> d)
         in (Inr \<lparr>ec_deploymentStatus = deploymentStatus,
                  ec_nodeStatus = nodeStatus t,
                  ec_nonPrimStatus = nonPrimStatus t,
                  ec_primStatus = primStatus t,
                  ec_stateChanged = stateChanged\<rparr>, d1)))"

subsection \<open>Sequences of set calls and the counters' consistency\<close>

text \<open>
  \<open>runSets\<close> performs a list of calls of \<^verbatim>\<open>set\<close> one after the other (the caller
  may catch what a call throws) and returns what each call returned.
  \<open>sumStatus\<close> sums a counter family over its buckets. \<open>isPrimNode\<close> and
  \<open>isNonPrimNode\<close> are the element-bearing nodes whose element is, respectively is
  not, a final DOM element. \<open>nodesAt t s\<close> counts the nodes whose status is \<open>s\<close>,
  \<open>primNodesAt\<close> and \<open>nonPrimNodesAt\<close> those of them that are of the one and of the
  other kind.
\<close>

record SetCall =
  sc_node :: EPNode
  sc_status :: DeployStatusExt
  sc_err :: "string option"
  sc_description :: "string option"

fun runSets ::
  "StatusTracker \<times> Deployment \<Rightarrow> SetCall list \<Rightarrow>
   (error + bool) list \<times> StatusTracker \<times> Deployment" where
  "runSets td [] = ([], td)"
| "runSets td (c # cs) =
     (let (r, td1) = st_set td (sc_node c) (sc_status c) (sc_err c) (sc_description c);
          (rs, td2) = runSets td1 cs
      in (r # rs, td2))"

definition sumStatus :: "(DeployStatus \<Rightarrow> int) \<Rightarrow> int" where
  "sumStatus c = sum_list (map c deployStatusKeys)"

definition isPrimNode :: "EPNode \<Rightarrow> bool" where
  "isPrimNode n = (case node_element n of Some el \<Rightarrow> el_isFinalDom el | None \<Rightarrow> False)"

definition isNonPrimNode :: "EPNode \<Rightarrow> bool" where
  "isNonPrimNode n = (case node_element n of Some el \<Rightarrow> \<not> el_isFinalDom el | None \<Rightarrow> False)"

definition nodesAt :: "StatusTracker \<Rightarrow> DeployStatus \<Rightarrow> nat" where
  "nodesAt t s = length (filter (\<lambda>(n, e). toDeployStatus e = s) (statMap t))"

definition sumsOk :: "EPNode list \<Rightarrow> StatusTracker \<Rightarrow> bool" where
  "sumsOk ns t =
     (sumStatus (nodeStatus t) = int (length ns)
      \<and> sumStatus (primStatus t) = int (length (filter isPrimNode ns))
      \<and> sumStatus (nonPrimStatus t) = int (length (filter isNonPrimNode ns)))"

definition countsOk :: "StatusTracker \<Rightarrow> bool" where
  "countsOk t =
     (distinct (map fst (statMap t))
      \<and> list_all (\<lambda>s. nodeStatus t s = int (nodesAt t s)) deployStatusKeys)"

definition primNodesAt :: "StatusTracker \<Rightarrow> DeployStatus \<Rightarrow> nat" where
  "primNodesAt t s =
     length (filter (\<lambda>(n, e). isPrimNode n \<and> toDeployStatus e = s) (statMap t))"

definition nonPrimNodesAt :: "StatusTracker \<Rightarrow> DeployStatus \<Rightarrow> nat" where
  "nonPrimNodesAt t s =
     length (filter (\<lambda>(n, e). isNonPrimNode n \<and> toDeployStatus e = s) (statMap t))"

definition familiesOk :: "StatusTracker \<Rightarrow> bool" where
  "familiesOk t =
     (distinct (map fst (statMap t))
      \<and> list_all (\<lambda>s. primStatus t s = int (primNodesAt t s)
                       \<and> nonPrimStatus t s = int (nonPrimNodesAt t s)) deployStatusKeys)"

section \<open>History commits (ops/buildAndDeploy.ts)\<close>

text \<open>
  \<^verbatim>\<open>currentState\<close> creates the function \<^verbatim>\<open>commit\<close>, a closure over the variable
  \<^verbatim>\<open>lastCommit\<close> (undefined at first), the options \<^verbatim>\<open>ret\<close> (of which \<^verbatim>\<open>commit\<close>
  reads \<^verbatim>\<open>dryRun\<close>, \<^verbatim>\<open>fileName\<close>, \<^verbatim>\<open>projectRoot\<close>, \<^verbatim>\<open>stackName\<close>) and the
  deployment store. \<open>CommitState\<close> is what the closure can change. \<open>stateJson\<close> is
  \<^verbatim>\<open>stateStore.serialize()\<close> at the time of the call. \<^verbatim>\<open>isStatusComplete\<close>
  (\<^verbatim>\<open>server/history.ts\<close>, not among the sources) is a parameter. A \<^verbatim>\<open>throw\<close> of
  \<^verbatim>\<open>commit\<close> comes before any assignment, so it leaves the state as it was.
\<close>

record BuildContext =
  bc_dryRun :: bool
  bc_fileName :: string
  bc_projectRoot :: string
  bc_stackName :: string

record CommitState =
  lastCommit :: "HistoryStatus option"
  cs_deployment :: Deployment

definition currentState_commitState :: "Deployment \<Rightarrow> CommitState" where
  "currentState_commitState deployment = \<lparr>lastCommit = None, cs_deployment = deployment\<rparr>"

definition commit ::
  "(HistoryStatus \<Rightarrow> bool) \<Rightarrow> BuildContext \<Rightarrow> string \<Rightarrow> CommitState \<Rightarrow> CommitData \<Rightarrow>
   error + CommitState" where
  "commit isStatusComplete ret stateJson st entry =
     (if lastCommit st = Some HPreAct \<and> cd_status entry = HPreAct then Inr st
      else if (case lastCommit st of None \<Rightarrow> False | Some lc \<Rightarrow> isStatusComplete lc)
      then Inl (InternalError ''Attempt to commit a repeated final HistoryStatus'')
      else
        (let st1 = st\<lparr>lastCommit := Some (cd_status entry)\<rparr>
         in if \<not> bc_dryRun ret
            then Inr (st1\<lparr>cs_deployment :=
                   commitEntry (cs_deployment st1)
                     (CommitData.extend entry
                        (HistoryEntry.fields (bc_fileName ret) (bc_projectRoot ret)
                           (bc_stackName ret) stateJson))\<rparr>)
            else Inr st1))"

section \<open>A deployment pass as a sequence of operations\<close>

text \<open>
  A pass (\<^verbatim>\<open>deployPass\<close>) creates a status tracker, and then sets node statuses,
  runs actions, completes the tracker and commits history entries. The tracker and the
  commit function write to the same deployment store. \<open>ps_invoked\<close> lists the action
  executors that were called.
\<close>

record Action =
  act_node :: EPNode
  act_id :: nat
  act_error :: "string option"

record PassState =
  ps_tracker :: StatusTracker
  ps_commit :: CommitState
  ps_invoked :: "nat list"

datatype PassOp =
    PSet SetCall
  | PComplete bool
  | PCommit CommitData string
  | PAct Action

definition trackerStore :: "PassState \<Rightarrow> StatusTracker \<times> Deployment" where
  "trackerStore ps = (ps_tracker ps, cs_deployment (ps_commit ps))"

definition withTrackerStore :: "PassState \<Rightarrow> StatusTracker \<times> Deployment \<Rightarrow> PassState" where
  "withTrackerStore ps td =
     ps\<lparr>ps_tracker := fst td, ps_commit := (ps_commit ps)\<lparr>cs_deployment := snd td\<rparr>\<rparr>"

text \<open>
  Modelled from the spec: how the orchestrator runs one action (the execution plan of
  \<^verbatim>\<open>deploy/\<close> is not among the sources). Spec 4.3: in dry-run mode, eligible actions
  are marked \<^verbatim>\<open>skipped\<close> in the status tracker without being executed; failing an action
  marks its node \<open>Failed\<close>. So in dry-run mode the node goes to the goal status and the
  executor is not called; otherwise the executor is called, and the node goes to the
  goal status, or to \<open>Failed\<close> with the error the executor threw (\<open>act_error\<close>).
\<close>

definition runAction :: "PassState \<Rightarrow> Action \<Rightarrow> PassState" where
  "runAction ps a =
     (let t = ps_tracker ps; goal = Std (goalOf (goalStatus t)) in
      if dryRun t
      then withTrackerStore ps (snd (st_set (trackerStore ps) (act_node a) goal None None))
      else
        (let ps1 = ps\<lparr>ps_invoked := ps_invoked ps @ [act_id a]\<rparr>
         in (case act_error a of
               None \<Rightarrow> withTrackerStore ps1 (snd (st_set (trackerStore ps1) (act_node a) goal None None))
             | Some e \<Rightarrow>
                 withTrackerStore ps1
                   (snd (st_set (trackerStore ps1) (act_node a) (Std Failed) (Some e) None)))))"

fun passStep ::
  "(HistoryStatus \<Rightarrow> bool) \<Rightarrow> BuildContext \<Rightarrow> PassState \<Rightarrow> PassOp \<Rightarrow> PassState" where
  "passStep isc ret ps (PSet c) =
     withTrackerStore ps
       (snd (st_set (trackerStore ps) (sc_node c) (sc_status c) (sc_err c) (sc_description c)))"
| "passStep isc ret ps (PComplete stateChanged) =
     withTrackerStore ps (ps_tracker ps, snd (st_complete (trackerStore ps) stateChanged))"
| "passStep isc ret ps (PCommit entry stateJson) =
     (case commit isc ret stateJson (ps_commit ps) entry of
        Inl e \<Rightarrow> ps
      | Inr st \<Rightarrow> ps\<lparr>ps_commit := st\<rparr>)"
| "passStep isc ret ps (PAct a) = runAction ps a"

text \<open>The tracker of a pass is created with the \<^verbatim>\<open>dryRun\<close> option of the pass.\<close>

definition startPass :: "BuildContext \<Rightarrow> StatusTrackerOptions \<Rightarrow> CommitState \<Rightarrow> PassState" where
  "startPass ret options st =
     (let (t, d) = createStatusTracker (options\<lparr>opt_dryRun := bc_dryRun ret\<rparr>) (cs_deployment st)
      in \<lparr>ps_tracker = t, ps_commit = st\<lparr>cs_deployment := d\<rparr>, ps_invoked = []\<rparr>)"

text \<open>
  Invariants of a pass in dry-run mode. \<open>dryInv d\<close>: no step ID, the store is \<open>d\<close>, no
  executor was called. \<open>skipInv\<close>: which states the tasks can be in, and that every
  element-bearing node at a goal status has a task in one of the states \<open>S\<close>.
  \<open>consInv\<close> holds of a tracker as the constructor leaves it. \<open>noSetErrors\<close>: no status
  change of the pass carries an error.
\<close>

definition dryInv :: "Deployment \<Rightarrow> PassState \<Rightarrow> bool" where
  "dryInv d ps =
     (dryRun (ps_tracker ps) \<and> stepID (ps_tracker ps) = None
      \<and> cs_deployment (ps_commit ps) = d \<and> ps_invoked ps = [])"

definition taskStatesIn :: "TaskState set \<Rightarrow> StatusTracker \<Rightarrow> bool" where
  "taskStatesIn S t = (\<forall>k tk. tGroup t k = Some tk \<longrightarrow> task_state tk \<in> S)"

definition goalTasksIn :: "TaskState set \<Rightarrow> StatusTracker \<Rightarrow> bool" where
  "goalTasksIn S t =
     (\<forall>n e el. map_of (statMap t) n = Some e \<longrightarrow> node_element n = Some el \<longrightarrow>
        map_of (taskMap t) n = Some (el_id el)
        \<and> (\<exists>tk. tGroup t (el_id el) = Some tk \<and> (isGoalStatus e \<longrightarrow> task_state tk \<in> S)))"

definition skipInv :: "bool \<Rightarrow> StatusTracker \<Rightarrow> bool" where
  "skipInv fl t =
     (taskStatesIn ({TaskCreated, TaskSkipped} \<union> (if fl then {TaskFailed} else {})) t
      \<and> goalTasksIn ({TaskSkipped} \<union> (if fl then {TaskFailed} else {})) t)"

definition consInv :: "StatusTracker \<Rightarrow> bool" where
  "consInv t =
     ((\<forall>k tk. tGroup t k = Some tk \<longrightarrow> task_state tk = TaskCreated)
      \<and> (\<forall>n e el. map_of (statMap t) n = Some e \<longrightarrow> node_element n = Some el \<longrightarrow>
            map_of (taskMap t) n = Some (el_id el) \<and> tGroup t (el_id el) \<noteq> None)
      \<and> (\<forall>n e. map_of (statMap t) n = Some e \<longrightarrow> e = Std Waiting))"

definition noSetErrors :: "PassOp list \<Rightarrow> bool" where
  "noSetErrors ops = list_all (\<lambda>op. case op of PSet c \<Rightarrow> sc_err c = None | _ \<Rightarrow> True) ops"

section \<open>Example configurations\<close>

text \<open>A tracker over three nodes (a primitive element, a non-primitive element, a node without element) and a run of three status changes.\<close>

definition exElemA :: Element where
  "exElemA = \<lparr>el_id = ''a'', el_componentName = ''Empty'', el_isFinalDom = True,
              el_built = True, el_deployedWhenIsTrivial = False\<rparr>"

definition exElemB :: Element where
  "exElemB = \<lparr>el_id = ''b'', el_componentName = ''Group'', el_isFinalDom = False,
              el_built = True, el_deployedWhenIsTrivial = True\<rparr>"

definition exNodeA :: EPNode where
  "exNodeA = \<lparr>node_ref = 0, node_element = Some exElemA, node_activeAction = True\<rparr>"

definition exNodeB :: EPNode where
  "exNodeB = \<lparr>node_ref = 1, node_element = Some exElemB, node_activeAction = False\<rparr>"

definition exNodeC :: EPNode where
  "exNodeC = \<lparr>node_ref = 2, node_element = None, node_activeAction = False\<rparr>"

definition exDeployment :: Deployment where
  "exDeployment = \<lparr>dep_calls = [], dep_nextStepNum = 0\<rparr>"

definition exOptions :: "bool \<Rightarrow> StatusTrackerOptions" where
  "exOptions dry = \<lparr>opt_dryRun = dry, opt_goalStatus = GoalDeployed,
                     opt_nodes = [exNodeA, exNodeB, exNodeC], opt_deployOpID = 7\<rparr>"

definition exCalls :: "SetCall list" where
  "exCalls = [\<lparr>sc_node = exNodeA, sc_status = Std Deploying, sc_err = None, sc_description = Some ''create a''\<rparr>,
              \<lparr>sc_node = exNodeA, sc_status = Std Failed, sc_err = Some ''boom'', sc_description = None\<rparr>,
              \<lparr>sc_node = exNodeB, sc_status = Std Deployed, sc_err = None, sc_description = None\<rparr>]"

definition exTracker :: StatusTracker where
  "exTracker = fst (snd (runSets (createStatusTracker (exOptions False) exDeployment) exCalls))"

definition exStore :: Deployment where
  "exStore = snd (snd (runSets (createStatusTracker (exOptions False) exDeployment) exCalls))"





text \<open>A build context, history entries, a predicate for the terminal phases, and a dry-run pass over the example nodes.\<close>

definition exContext :: "bool \<Rightarrow> BuildContext" where
  "exContext dry = \<lparr>bc_dryRun = dry, bc_fileName = ''/proj/index.tsx'', bc_projectRoot = ''/proj'',
                     bc_stackName = ''default''\<rparr>"

definition exEntry :: "HistoryStatus \<Rightarrow> CommitData" where
  "exEntry s = \<lparr>cd_status = s, cd_dataDir = ''/data'', cd_dependenciesJson = ''{}'',
                cd_domXml = ''<Adapt/>'', cd_observationsJson = ''{}''\<rparr>"

definition exIsStatusComplete :: "HistoryStatus \<Rightarrow> bool" where
  "exIsStatusComplete s = (s \<noteq> HPreAct)"

definition exPassOps :: "PassOp list" where
  "exPassOps =
     [PCommit (exEntry HPreAct) ''{}'',
      PAct \<lparr>act_node = exNodeA, act_id = 1, act_error = None\<rparr>,
      PSet \<lparr>sc_node = exNodeB, sc_status = Std Deployed, sc_err = None, sc_description = None\<rparr>,
      PComplete False,
      PCommit (exEntry HSuccess) ''{}'']"

definition exDryPass :: PassState where
  "exDryPass = foldl (passStep exIsStatusComplete (exContext True))
                 (startPass (exContext True) (exOptions True) (currentState_commitState exDeployment))
                 exPassOps"




text \<open>A path of four elements, from the root to an \<^verbatim>\<open>Empty\<close> inside two groups.\<close>

definition exElemOf :: "string \<Rightarrow> AdaptElement" where
  "exElemOf t = \<lparr>componentType = t, props = [(''key'', StringValue t)]\<rparr>"

definition exPath :: DomPath where
  "exPath = [exElemOf ''Root'', exElemOf ''Group'', exElemOf ''Group'', exElemOf ''Empty'']"

text \<open>
  A path of four element instances, two rules whose selectors match it, and steps of a
  pass: a copy of the matches of the deepest element, the evaluation of another rule
  at it, a never-match mark and an evaluation at its parent.
\<close>

definition exMounted :: "nat MountedElement list" where
  "exMounted = [(0, exElemOf ''Root''), (1, exElemOf ''Group''), (2, exElemOf ''Group''),
                (3, exElemOf ''Empty'')]"

definition exRuleEmpty :: StyleRule where
  "exRuleEmpty = \<lparr>rule_ref = 7, rule_selector = [[Tag ''Empty'']]\<rparr>"

definition exRuleGroup :: StyleRule where
  "exRuleGroup = \<lparr>rule_ref = 8, rule_selector = [[Tag ''Group'', Descendant, Tag ''Empty'']]\<rparr>"

definition exSteps :: "nat StyleStep list" where
  "exSteps = [Registry (OpCopyRuleMatches 3 4), Evaluate exMounted exRuleGroup,
              Registry (OpNeverMatch 2), Evaluate (butlast exMounted) exRuleEmpty]"

chapter \<open>Properties\<close>

section \<open>Match registry: recorded matches only grow\<close>

lemma ruleHasMatched_recorded: "snd (ruleHasMatched reg el r) = recordedMatch reg el r"
  by (simp add: ruleHasMatched_def getCssMatched_def recordedMatch_def emptyMatchInfo_def
      split: option.splits)

lemma recorded_ruleMatches: "recordedMatch (ruleMatches reg el r) el r"
  by (simp add: ruleMatches_def getCssMatched_def recordedMatch_def split: option.splits)

lemma recorded_applyRegOp:
  "recordedMatch reg el r \<Longrightarrow> recordedMatch (applyRegOp reg op) el r"
  by (cases op)
     (auto simp: recordedMatch_def ruleHasMatched_def ruleMatches_def neverMatch_def
        canMatch_def copyRuleMatches_def getCssMatched_def emptyMatchInfo_def Let_def
        split: option.splits if_splits)

lemma recorded_foldl:
  "recordedMatch reg el r \<Longrightarrow> recordedMatch (foldl applyRegOp reg ops) el r"
  by (induction ops arbitrary: reg) (simp_all add: recorded_applyRegOp)

lemma canMatch_flag:
  "snd (canMatch reg el) = (case reg el of None \<Rightarrow> True | Some m \<Rightarrow> \<not> mi_neverMatch m)"
  by (simp add: canMatch_def getCssMatched_def emptyMatchInfo_def split: option.splits)

lemma copy_propagates:
  "(snd (canMatch reg fromEl) \<longrightarrow>
      (\<forall>r. recordedMatch reg fromEl r \<longrightarrow> recordedMatch (copyRuleMatches reg fromEl toEl) toEl r))
   \<and> (\<not> snd (canMatch reg fromEl) \<longrightarrow> \<not> snd (canMatch (copyRuleMatches reg fromEl toEl) toEl))"
  by (auto simp: canMatch_flag recordedMatch_def copyRuleMatches_def getCssMatched_def
        emptyMatchInfo_def Let_def split: option.splits if_splits)


section \<open>Evaluating style rules: a recorded rule is not applied again\<close>

lemma recorded_known:
  assumes "recordedMatch reg el r"
  shows "canMatch reg el = (reg, snd (canMatch reg el)) \<and> ruleHasMatched reg el r = (reg, True)"
  using assms
  by (auto simp: recordedMatch_def canMatch_def ruleHasMatched_def getCssMatched_def
        split: option.splits)

lemma recorded_fst_canMatch:
  "recordedMatch (fst (canMatch reg e)) el r = recordedMatch reg el r"
  by (auto simp: recordedMatch_def canMatch_def getCssMatched_def emptyMatchInfo_def
        split: option.splits)

lemma recorded_fst_ruleHasMatched:
  "recordedMatch (fst (ruleHasMatched reg e q)) el r = recordedMatch reg el r"
  by (auto simp: recordedMatch_def ruleHasMatched_def getCssMatched_def emptyMatchInfo_def
        split: option.splits)

lemma recorded_ruleMatches_iff:
  "recordedMatch (ruleMatches reg e q) el r \<longleftrightarrow> recordedMatch reg el r \<or> (el = e \<and> r = q)"
  by (auto simp: recordedMatch_def ruleMatches_def getCssMatched_def emptyMatchInfo_def
        split: option.splits)

lemma evaluateRule_cases:
  obtains (nomatch) reg' where "fst (evaluateRule st path q) \<noteq> Inr True"
      "snd (evaluateRule st path q) = st\<lparr>ss_reg := reg'\<rparr>"
      "\<And>el r. recordedMatch reg' el r = recordedMatch (ss_reg st) el r"
  | (match) "path \<noteq> []" "fst (evaluateRule st path q) = Inr True"
      "\<not> recordedMatch (ss_reg st) (fst (last path)) q"
      "rule_match q (map snd path) = Inr True"
      "ss_applied (snd (evaluateRule st path q)) = ss_applied st @ [(fst (last path), q)]"
      "\<And>el r. recordedMatch (ss_reg (snd (evaluateRule st path q))) el r
          \<longleftrightarrow> recordedMatch (ss_reg st) el r \<or> (el = fst (last path) \<and> r = q)"
proof (cases "path = []")
  case True
  have "evaluateRule st path q = (Inr False, st\<lparr>ss_reg := ss_reg st\<rparr>)"
    using True by (simp add: evaluateRule_def)
  then show ?thesis using nomatch[of "ss_reg st"] by simp
next
  case False
  let ?el = "fst (last path)"
  obtain r1 can where cm: "canMatch (ss_reg st) ?el = (r1, can)"
    by (cases "canMatch (ss_reg st) ?el")
  obtain r2 has where hm: "ruleHasMatched r1 ?el q = (r2, has)"
    by (cases "ruleHasMatched r1 ?el q")
  have k1: "recordedMatch r1 el r = recordedMatch (ss_reg st) el r" for el r
    using recorded_fst_canMatch[of "ss_reg st" ?el el r] cm by simp
  have k2: "recordedMatch r2 el r = recordedMatch (ss_reg st) el r" for el r
    using recorded_fst_ruleHasMatched[of r1 ?el q el r] hm k1 by simp
  have hr: "has = recordedMatch (ss_reg st) ?el q"
    using ruleHasMatched_recorded[of r1 ?el q] hm k1 by simp
  show ?thesis
  proof (cases can)
    case nc: False
    have "evaluateRule st path q = (Inr False, st\<lparr>ss_reg := r1\<rparr>)"
      using False nc cm by (simp add: evaluateRule_def Let_def)
    then show ?thesis using nomatch[of r1] k1 by simp
  next
    case c: True
    show ?thesis
    proof (cases has)
      case h: True
      have "evaluateRule st path q = (Inr False, st\<lparr>ss_reg := r2\<rparr>)"
        using False c h cm hm by (simp add: evaluateRule_def Let_def)
      then show ?thesis using nomatch[of r2] k2 by simp
    next
      case h: False
      have nr: "\<not> recordedMatch (ss_reg st) ?el q" using h hr by simp
      show ?thesis
      proof (cases "rule_match q (map snd path)")
        case (Inl e)
        have "evaluateRule st path q = (Inl e, st\<lparr>ss_reg := r2\<rparr>)"
          using False c h cm hm Inl by (simp add: evaluateRule_def Let_def)
        then show ?thesis using nomatch[of r2] k2 by simp
      next
        case (Inr b)
        show ?thesis
        proof (cases b)
          case bf: False
          have "evaluateRule st path q = (Inr False, st\<lparr>ss_reg := r2\<rparr>)"
            using False c h cm hm Inr bf by (simp add: evaluateRule_def Let_def)
          then show ?thesis using nomatch[of r2] k2 by simp
        next
          case bt: True
          have e: "evaluateRule st path q
                   = (Inr True, st\<lparr>ss_reg := ruleMatches r2 ?el q,
                                    ss_applied := ss_applied st @ [(?el, q)]\<rparr>)"
            using False c h cm hm Inr bt by (simp add: evaluateRule_def Let_def)
          have m: "rule_match q (map snd path) = Inr True" using Inr bt by simp
          have "\<And>el r. recordedMatch (ss_reg (snd (evaluateRule st path q))) el r
                \<longleftrightarrow> recordedMatch (ss_reg st) el r \<or> (el = ?el \<and> r = q)"
            by (simp add: e recorded_ruleMatches_iff k2)
          then show ?thesis using match[OF False _ nr m] e by simp
        qed
      qed
    qed
  qed
qed

lemma evaluateRule_again:
  assumes "recordedMatch (ss_reg st) (fst (last path)) r"
  shows "evaluateRule st path r = (Inr False, st)"
proof (cases "path = []")
  case True
  then show ?thesis by (simp add: evaluateRule_def)
next
  case False
  note k = recorded_known[OF assms]
  have c: "canMatch (ss_reg st) (fst (last path)) = (ss_reg st, snd (canMatch (ss_reg st) (fst (last path))))"
    and h: "ruleHasMatched (ss_reg st) (fst (last path)) r = (ss_reg st, True)"
    using k by simp_all
  show ?thesis
  proof (cases "snd (canMatch (ss_reg st) (fst (last path)))")
    case True
    then have "canMatch (ss_reg st) (fst (last path)) = (ss_reg st, True)" using c by simp
    then show ?thesis using False h by (simp add: evaluateRule_def Let_def)
  next
    case nc: False
    then have "canMatch (ss_reg st) (fst (last path)) = (ss_reg st, False)" using c by simp
    then show ?thesis using False by (simp add: evaluateRule_def Let_def)
  qed
qed

lemma styleStep_recorded:
  assumes "recordedMatch (ss_reg st) el r"
  shows "recordedMatch (ss_reg (styleStep st s)) el r"
proof (cases s)
  case (Evaluate path q)
  show ?thesis
  proof (cases rule: evaluateRule_cases[of st path q])
    case (nomatch reg')
    then show ?thesis using assms Evaluate by simp
  next
    case match
    then show ?thesis using assms Evaluate by simp
  qed
next
  case (Registry op)
  then show ?thesis using assms by (simp add: recorded_applyRegOp)
qed

lemma steps_recorded:
  "recordedMatch (ss_reg st) el r \<Longrightarrow> recordedMatch (ss_reg (foldl styleStep st steps)) el r"
  by (induction steps arbitrary: st) (simp_all add: styleStep_recorded)

lemma styleStep_applied:
  assumes "distinct (ss_applied st)"
    and "\<forall>x \<in> set (ss_applied st). recordedMatch (ss_reg st) (fst x) (snd x)"
  shows "distinct (ss_applied (styleStep st s))
     \<and> (\<forall>x \<in> set (ss_applied (styleStep st s)).
           recordedMatch (ss_reg (styleStep st s)) (fst x) (snd x))"
proof (cases s)
  case (Evaluate path q)
  show ?thesis
  proof (cases rule: evaluateRule_cases[of st path q])
    case (nomatch reg')
    then show ?thesis using assms Evaluate by simp
  next
    case match
    have "(fst (last path), q) \<notin> set (ss_applied st)"
      using assms(2) match(3) by force
    then show ?thesis using assms Evaluate match(5,6) by auto
  qed
next
  case (Registry op)
  then show ?thesis using assms by (auto simp: recorded_applyRegOp)
qed

lemma steps_applied:
  assumes "distinct (ss_applied st)"
    and "\<forall>x \<in> set (ss_applied st). recordedMatch (ss_reg st) (fst x) (snd x)"
  shows "distinct (ss_applied (foldl styleStep st steps))
     \<and> (\<forall>x \<in> set (ss_applied (foldl styleStep st steps)).
           recordedMatch (ss_reg (foldl styleStep st steps)) (fst x) (snd x))"
  using assms
proof (induction steps arbitrary: st)
  case Nil
  then show ?case by simp
next
  case (Cons s steps)
  show ?case
    using Cons.IH[of "styleStep st s"] styleStep_applied[OF Cons.prems, of s] by simp
qed


section \<open>Status tracker: frame lemmas and counter invariants\<close>

lemma sumStatus_move: "sumStatus (incr (decr c a) b) = sumStatus c"
  by (cases a; cases b) (simp_all add: sumStatus_def deployStatusKeys_def incr_def decr_def)

lemma sumStatus_incr: "sumStatus (incr c a) = sumStatus c + 1"
  by (cases a) (simp_all add: sumStatus_def deployStatusKeys_def incr_def)

lemma sumStatus_newStatus: "sumStatus newStatus = 0"
  by (simp add: sumStatus_def deployStatusKeys_def newStatus_def)

lemma sumStatus_upd_new: "sumStatus (newStatus(Waiting := k)) = k"
  by (simp add: sumStatus_def deployStatusKeys_def newStatus_def)

lemma st_set_noop:
  assumes "map_of (statMap t) n = Some old" and "s = old \<or> isFinalStatus old"
  shows "st_set (t, d) n s err desc = (Inr False, t, d)"
  using assms by (auto simp: st_set_def st_get_def)

lemma updateTask_frame:
  assumes "updateTask t n oldStat newStat err desc = Inr t'"
  shows "statMap t' = statMap t \<and> nodeStatus t' = nodeStatus t \<and> primStatus t' = primStatus t
         \<and> nonPrimStatus t' = nonPrimStatus t \<and> stepID t' = stepID t \<and> dryRun t' = dryRun t
         \<and> goalStatus t' = goalStatus t \<and> taskMap t' = taskMap t"
  using assms
  by (auto simp: updateTask_def modifyTask_def Let_def
           split: sum.splits option.splits if_splits)

lemma updateCount_frame:
  "statMap (updateCount t n a b) = statMap t \<and> stepID (updateCount t n a b) = stepID t
   \<and> dryRun (updateCount t n a b) = dryRun t \<and> goalStatus (updateCount t n a b) = goalStatus t
   \<and> taskMap (updateCount t n a b) = taskMap t \<and> tGroup (updateCount t n a b) = tGroup t"
  by (simp add: updateCount_def Let_def split: option.splits)

lemma updateCount_sums:
  "sumStatus (nodeStatus (updateCount t n a b)) = sumStatus (nodeStatus t)
   \<and> sumStatus (primStatus (updateCount t n a b)) = sumStatus (primStatus t)
   \<and> sumStatus (nonPrimStatus (updateCount t n a b)) = sumStatus (nonPrimStatus t)"
  by (simp add: updateCount_def Let_def sumStatus_move split: option.splits)

lemma st_set_cases:
  obtains (unknown) e where "map_of (statMap t) n = None" "st_set (t, d) n s err desc = (Inl e, t, d)"
  | (noop) old where "map_of (statMap t) n = Some old" "s = old \<or> isFinalStatus old"
      "st_set (t, d) n s err desc = (Inr False, t, d)"
  | (changed) old r t' d' where "map_of (statMap t) n = Some old" "s \<noteq> old" "\<not> isFinalStatus old"
      "st_set (t, d) n s err desc = (r, t', d')"
      "statMap t' = AList.update n s (statMap t)"
      "nodeStatus t' = incr (decr (nodeStatus t) (toDeployStatus old)) (toDeployStatus s)"
      "primStatus t' = (if isPrimNode n then incr (decr (primStatus t) (toDeployStatus old)) (toDeployStatus s) else primStatus t)"
      "nonPrimStatus t' = (if isNonPrimNode n then incr (decr (nonPrimStatus t) (toDeployStatus old)) (toDeployStatus s) else nonPrimStatus t)"
      "stepID t' = stepID t" "dryRun t' = dryRun t" "goalStatus t' = goalStatus t"
proof (cases "map_of (statMap t) n")
  case None
  then show ?thesis using unknown by (simp add: st_set_def st_get_def)
next
  case (Some old)
  show ?thesis
  proof (cases "s = old \<or> isFinalStatus old")
    case True
    then show ?thesis using noop Some st_set_noop by blast
  next
    case False
    define t1 where "t1 = t\<lparr>statMap := AList.update n s (statMap t)\<rparr>"
    define t2 where "t2 = updateCount t1 n (toDeployStatus old) (toDeployStatus s)"
    have t2_props:
      "statMap t2 = AList.update n s (statMap t)"
      "nodeStatus t2 = incr (decr (nodeStatus t) (toDeployStatus old)) (toDeployStatus s)"
      "primStatus t2 = (if isPrimNode n then incr (decr (primStatus t) (toDeployStatus old)) (toDeployStatus s) else primStatus t)"
      "nonPrimStatus t2 = (if isNonPrimNode n then incr (decr (nonPrimStatus t) (toDeployStatus old)) (toDeployStatus s) else nonPrimStatus t)"
      "stepID t2 = stepID t" "dryRun t2 = dryRun t" "goalStatus t2 = goalStatus t"
      by (simp_all add: t2_def t1_def updateCount_def Let_def isPrimNode_def isNonPrimNode_def
               split: option.splits)
    show ?thesis
    proof (cases "updateTask t2 n old (toDeployStatus s) err desc")
      case (Inl e)
      then have "st_set (t, d) n s err desc = (Inl e, t2, d)"
        using Some False by (simp add: st_set_def st_get_def Let_def t2_def t1_def)
      then show ?thesis using changed[OF Some _ _ _ t2_props] False by blast
    next
      case (Inr t3)
      note fr = updateTask_frame[OF Inr]
      have t3_props:
        "statMap t3 = AList.update n s (statMap t)"
        "nodeStatus t3 = incr (decr (nodeStatus t) (toDeployStatus old)) (toDeployStatus s)"
        "primStatus t3 = (if isPrimNode n then incr (decr (primStatus t) (toDeployStatus old)) (toDeployStatus s) else primStatus t)"
        "nonPrimStatus t3 = (if isNonPrimNode n then incr (decr (nonPrimStatus t) (toDeployStatus old)) (toDeployStatus s) else nonPrimStatus t)"
        "stepID t3 = stepID t" "dryRun t3 = dryRun t" "goalStatus t3 = goalStatus t"
        using fr t2_props by simp_all
      obtain r d' where "st_set (t, d) n s err desc = (r, t3, d')"
        using Some False Inr
        by (cases "writeStatus t3 d n err")
           (simp_all add: st_set_def st_get_def Let_def t2_def t1_def)
      then show ?thesis using changed[OF Some _ _ _ t3_props] False by blast
    qed
  qed
qed



lemma constructor_node_frame:
  "nodeStatus (constructor_node t n) = nodeStatus t
   \<and> stepID (constructor_node t n) = stepID t
   \<and> dryRun (constructor_node t n) = dryRun t
   \<and> goalStatus (constructor_node t n) = goalStatus t
   \<and> statMap (constructor_node t n) = AList.update n (Std Waiting) (statMap t)
   \<and> primStatus (constructor_node t n) = (if isPrimNode n then incr (primStatus t) Waiting else primStatus t)
   \<and> nonPrimStatus (constructor_node t n) = (if isNonPrimNode n then incr (nonPrimStatus t) Waiting else nonPrimStatus t)"
  by (simp add: constructor_node_def Let_def isPrimNode_def isNonPrimNode_def split: option.splits)

lemma constructor_fold_frame:
  "nodeStatus (foldl constructor_node t ns) = nodeStatus t
   \<and> stepID (foldl constructor_node t ns) = stepID t
   \<and> dryRun (foldl constructor_node t ns) = dryRun t
   \<and> goalStatus (foldl constructor_node t ns) = goalStatus t
   \<and> sumStatus (primStatus (foldl constructor_node t ns))
        = sumStatus (primStatus t) + int (length (filter isPrimNode ns))
   \<and> sumStatus (nonPrimStatus (foldl constructor_node t ns))
        = sumStatus (nonPrimStatus t) + int (length (filter isNonPrimNode ns))"
proof (induction ns arbitrary: t)
  case Nil
  show ?case by simp
next
  case (Cons n ns)
  show ?case
    using Cons.IH[of "constructor_node t n"] constructor_node_frame[of t n]
    by (simp add: sumStatus_incr)
qed

lemma update_notin: "k \<notin> fst ` set al \<Longrightarrow> AList.update k v al = al @ [(k, v)]"
  by (induction al) auto

lemma constructor_fold_statMap:
  assumes "distinct ns" and "set ns \<inter> fst ` set (statMap t) = {}"
  shows "statMap (foldl constructor_node t ns) = statMap t @ map (\<lambda>n. (n, Std Waiting)) ns"
  using assms
proof (induction ns arbitrary: t)
  case Nil
  show ?case by simp
next
  case (Cons n ns)
  have notin: "n \<notin> fst ` set (statMap t)" using Cons.prems by auto
  have upd: "statMap (constructor_node t n) = statMap t @ [(n, Std Waiting)]"
    using notin constructor_node_frame[of t n] by (simp add: update_notin)
  have "set ns \<inter> fst ` set (statMap (constructor_node t n)) = {}"
    using Cons.prems upd by auto
  then have "statMap (foldl constructor_node (constructor_node t n) ns)
             = statMap (constructor_node t n) @ map (\<lambda>n. (n, Std Waiting)) ns"
    using Cons.IH[of "constructor_node t n"] Cons.prems by simp
  then show ?case using upd by simp
qed

lemma initDeploymentStatus_frame:
  "statMap (fst (initDeploymentStatus (t, d))) = statMap t
   \<and> nodeStatus (fst (initDeploymentStatus (t, d))) = nodeStatus t
   \<and> primStatus (fst (initDeploymentStatus (t, d))) = primStatus t
   \<and> nonPrimStatus (fst (initDeploymentStatus (t, d))) = nonPrimStatus t
   \<and> dryRun (fst (initDeploymentStatus (t, d))) = dryRun t
   \<and> goalStatus (fst (initDeploymentStatus (t, d))) = goalStatus t"
  by (simp add: initDeploymentStatus_def Let_def split: prod.splits)

lemma create_sumsOk: "sumsOk (opt_nodes options) (fst (createStatusTracker options d))"
  using constructor_fold_frame[of _ "opt_nodes options"]
  by (simp add: sumsOk_def createStatusTracker_def initDeploymentStatus_frame StatusTrackerImpl_def
        sumStatus_upd_new sumStatus_newStatus)

lemma st_set_sumsOk:
  assumes "sumsOk ns t" and "st_set (t, d) n s err desc = (r, t', d')"
  shows "sumsOk ns t'"
proof (cases rule: st_set_cases[where t=t and n=n and s=s and d=d and err=err and desc=desc])
  case (unknown e)
  then show ?thesis using assms by simp
next
  case (noop old)
  then show ?thesis using assms by simp
next
  case (changed old r1 t1 d1)
  then have "t' = t1" using assms(2) by simp
  then show ?thesis using changed assms(1) by (simp add: sumsOk_def sumStatus_move)
qed

lemma runSets_sumsOk:
  assumes "sumsOk ns (fst td)" and "runSets td cs = (rs, t', d')"
  shows "sumsOk ns t'"
  using assms
proof (induction cs arbitrary: td rs)
  case Nil
  then show ?case by auto
next
  case (Cons c cs)
  obtain t d where td: "td = (t, d)" by (cases td)
  obtain r t1 d1 where st: "st_set (t, d) (sc_node c) (sc_status c) (sc_err c) (sc_description c) = (r, t1, d1)"
    by (metis prod_cases3)
  obtain rs1 where rs1: "runSets (t1, d1) cs = (rs1, t', d')"
    using Cons.prems(2) td st by (auto split: prod.splits)
  have "sumsOk ns t1" using st_set_sumsOk[OF _ st] Cons.prems(1) td by simp
  then show ?case using Cons.IH[of "(t1, d1)" rs1] rs1 by simp
qed



lemma deployStatusKeys_all: "s \<in> set deployStatusKeys"
  by (cases s) (simp_all add: deployStatusKeys_def)

lemma countsOk_iff:
  "countsOk t \<longleftrightarrow> distinct (map fst (statMap t)) \<and> (\<forall>s. nodeStatus t s = int (nodesAt t s))"
  using deployStatusKeys_all by (auto simp: countsOk_def list_all_iff)

lemma move_apply:
  "incr (decr c a) b s = c s - (if a = s then 1 else 0) + (if b = s then 1 else 0)"
  by (simp add: incr_def decr_def)

lemma filter_update_count_nat:
  assumes "distinct (map fst sm)" and "map_of sm n = Some old"
  shows "length (filter (\<lambda>(k, e). g e = s) (AList.update n v sm)) + (if g old = s then 1 else 0)
         = length (filter (\<lambda>(k, e). g e = s) sm) + (if g v = s then 1 else 0)"
  using assms
proof (induction sm)
  case Nil
  then show ?case by simp
next
  case (Cons p sm)
  obtain k e where p: "p = (k, e)" by (cases p)
  show ?case
  proof (cases "k = n")
    case True
    then show ?thesis using Cons.prems p by simp
  next
    case False
    then have "map_of sm n = Some old" "distinct (map fst sm)"
      using Cons.prems p by auto
    then have "length (filter (\<lambda>(k, e). g e = s) (AList.update n v sm)) + (if g old = s then 1 else 0)
         = length (filter (\<lambda>(k, e). g e = s) sm) + (if g v = s then 1 else 0)"
      using Cons.IH by blast
    then show ?thesis using False p by (simp split: if_splits)
  qed
qed

lemma filter_update_count:
  assumes "distinct (map fst sm)" and "map_of sm n = Some old"
  shows "int (length (filter (\<lambda>(k, e). g e = s) (AList.update n v sm)))
         = int (length (filter (\<lambda>(k, e). g e = s) sm))
           - (if g old = s then 1 else 0) + (if g v = s then 1 else 0)"
  using filter_update_count_nat[OF assms, of g s v] by (simp split: if_splits)

lemma update_keys_same:
  "map_of sm n = Some old \<Longrightarrow> map fst (AList.update n v sm) = map fst sm"
  by (induction sm) (auto split: if_splits)

lemma st_set_countsOk:
  assumes "countsOk t" and "st_set (t, d) n s err desc = (r, t', d')"
  shows "countsOk t' \<and> map fst (statMap t') = map fst (statMap t)"
proof (cases rule: st_set_cases[where t=t and n=n and s=s and d=d and err=err and desc=desc])
  case (unknown e)
  then show ?thesis using assms by simp
next
  case (noop old)
  then show ?thesis using assms by simp
next
  case (changed old r1 t1 d1)
  then have eq: "t' = t1" using assms(2) by simp
  have dist: "distinct (map fst (statMap t))" and cnt: "\<And>s. nodeStatus t s = int (nodesAt t s)"
    using assms(1) by (simp_all add: countsOk_iff)
  have keys: "map fst (statMap t') = map fst (statMap t)"
    using changed eq by (simp add: update_keys_same)
  have "nodeStatus t' x = int (nodesAt t' x)" for x
    using filter_update_count[OF dist changed(1), of toDeployStatus x s] changed(5,6) eq cnt[of x]
    by (simp add: nodesAt_def move_apply)
  then show ?thesis using keys dist by (simp add: countsOk_iff)
qed

lemma runSets_countsOk:
  assumes "countsOk (fst td)" and "runSets td cs = (rs, t', d')"
  shows "countsOk t' \<and> map fst (statMap t') = map fst (statMap (fst td))"
  using assms
proof (induction cs arbitrary: td rs)
  case Nil
  then show ?case by auto
next
  case (Cons c cs)
  obtain t d where td: "td = (t, d)" by (cases td)
  obtain r t1 d1 where st: "st_set (t, d) (sc_node c) (sc_status c) (sc_err c) (sc_description c) = (r, t1, d1)"
    by (metis prod_cases3)
  obtain rs1 where rs1: "runSets (t1, d1) cs = (rs1, t', d')"
    using Cons.prems(2) td st by (auto split: prod.splits)
  have "countsOk t1 \<and> map fst (statMap t1) = map fst (statMap t)"
    using st_set_countsOk[OF _ st] Cons.prems(1) td by simp
  then show ?case using Cons.IH[of "(t1, d1)" rs1] rs1 td by simp
qed

lemma create_statMap:
  assumes "distinct (opt_nodes options)"
  shows "statMap (fst (createStatusTracker options d)) = map (\<lambda>n. (n, Std Waiting)) (opt_nodes options)"
  using constructor_fold_statMap[OF assms, of "\<lparr>dryRun = opt_dryRun options,
        goalStatus = opt_goalStatus options,
        nodeStatus = newStatus(Waiting := int (length (opt_nodes options))),
        nonPrimStatus = newStatus,
        deployOpID = opt_deployOpID options,
        primStatus = newStatus,
        statMap = [],
        taskMap = [],
        tGroup = Map.empty,
        stepID = None\<rparr>"]
  by (simp add: createStatusTracker_def initDeploymentStatus_frame StatusTrackerImpl_def)

lemma create_nodeStatus:
  "nodeStatus (fst (createStatusTracker options d)) = newStatus(Waiting := int (length (opt_nodes options)))"
  using constructor_fold_frame[of _ "opt_nodes options"]
  by (simp add: createStatusTracker_def initDeploymentStatus_frame StatusTrackerImpl_def)

lemma create_countsOk:
  assumes "distinct (opt_nodes options)"
  shows "countsOk (fst (createStatusTracker options d))"
proof -
  let ?t = "fst (createStatusTracker options d)"
  have sm: "statMap ?t = map (\<lambda>n. (n, Std Waiting)) (opt_nodes options)"
    by (rule create_statMap[OF assms])
  have d: "distinct (map fst (statMap ?t))" using assms by (simp add: sm comp_def)
  have "nodeStatus ?t s = int (nodesAt ?t s)" for s
    by (simp add: create_nodeStatus nodesAt_def sm filter_map comp_def newStatus_def)
  then show ?thesis using d by (simp add: countsOk_iff)
qed

lemma toDeployStatus_Std_iff:
  "s \<noteq> Deploying \<Longrightarrow> s \<noteq> Destroying \<Longrightarrow> toDeployStatus e = s \<longleftrightarrow> e = Std s"
  by (cases e) auto

lemma count_pos_iff:
  assumes "s \<noteq> Deploying" and "s \<noteq> Destroying"
  shows "0 < length (filter (\<lambda>(k, e). toDeployStatus e = s) sm) \<longleftrightarrow> Std s \<in> snd ` set sm"
  using assms
  by (induction sm) (auto simp: toDeployStatus_Std_iff)

lemma two_counts_le:
  "length (filter (\<lambda>(k, e). toDeployStatus e = Deployed) sm)
   + length (filter (\<lambda>(k, e). toDeployStatus e = Destroyed) sm) \<le> length sm"
  by (induction sm) auto

lemma all_goal_iff:
  "length (filter (\<lambda>(k, e). toDeployStatus e = Deployed) sm)
   + length (filter (\<lambda>(k, e). toDeployStatus e = Destroyed) sm) = length sm
   \<longleftrightarrow> (\<forall>e \<in> snd ` set sm. isGoalStatus e)"
proof (induction sm)
  case Nil
  show ?case by simp
next
  case (Cons p sm)
  obtain k e where p: "p = (k, e)" by (cases p)
  have g: "isGoalStatus e \<longleftrightarrow> toDeployStatus e = Deployed \<or> toDeployStatus e = Destroyed"
    by (cases e) (auto simp: isGoalStatus_def)
  show ?case using Cons.IH two_counts_le[of sm] p g by auto
qed

lemma complete_char:
  assumes "countsOk t"
  shows "fst (st_complete (t, d) stateChanged) =
     (if Std Initial \<in> snd ` set (statMap t)
      then Inl (InternalError ''Nodes should not be in Initial state'')
      else Inr \<lparr>ec_deploymentStatus =
                  (if Std Failed \<in> snd ` set (statMap t) then OpStatus Failed
                   else if \<forall>e \<in> snd ` set (statMap t). isGoalStatus e
                        then OpStatus (goalOf (goalStatus t))
                   else if stateChanged then StateChanged
                   else OpStatus (goalToInProgress (goalStatus t))),
                ec_nodeStatus = nodeStatus t,
                ec_nonPrimStatus = nonPrimStatus t,
                ec_primStatus = primStatus t,
                ec_stateChanged = stateChanged\<rparr>)"
proof -
  have cnt: "\<And>s. nodeStatus t s = int (nodesAt t s)"
    using assms by (simp add: countsOk_iff)
  have i: "0 < nodeStatus t Initial \<longleftrightarrow> Std Initial \<in> snd ` set (statMap t)"
    using count_pos_iff[of Initial "statMap t"] by (simp add: cnt nodesAt_def)
  have f: "0 < nodeStatus t Failed \<longleftrightarrow> Std Failed \<in> snd ` set (statMap t)"
    using count_pos_iff[of Failed "statMap t"] by (simp add: cnt nodesAt_def)
  have g: "nodeStatus t Deployed + nodeStatus t Destroyed = int (length (statMap t))
           \<longleftrightarrow> (\<forall>e \<in> snd ` set (statMap t). isGoalStatus e)"
    using all_goal_iff[of "statMap t"] by (simp add: cnt nodesAt_def) linarith
  show ?thesis
    unfolding st_complete_def Let_def using i f g by (simp split: option.splits)
qed


lemma st_set_other_keeps:
  assumes "map_of (statMap t) n = Some old" and "m \<noteq> n"
      and "st_set (t, d) m s err desc = (r, t', d')"
  shows "map_of (statMap t') n = Some old"
proof (cases rule: st_set_cases[where t=t and n=m and s=s and d=d and err=err and desc=desc])
  case (unknown e)
  then show ?thesis using assms by simp
next
  case (noop old')
  then show ?thesis using assms by simp
next
  case (changed old' r1 t1 d1)
  then have "t' = t1" using assms(3) by simp
  then show ?thesis using changed(5) assms(1,2) by (simp add: update_conv')
qed

lemma runSets_final_stays:
  assumes "map_of (statMap t) n = Some old" and "isFinalStatus old"
      and "runSets (t, d) cs = (rs, t', d')"
  shows "map_of (statMap t') n = Some old \<and> length rs = length cs
         \<and> (\<forall>i < length cs. sc_node (cs ! i) = n \<longrightarrow> rs ! i = Inr False)"
  using assms
proof (induction cs arbitrary: t d rs)
  case Nil
  then show ?case by simp
next
  case (Cons c cs)
  obtain r t1 d1 where st: "st_set (t, d) (sc_node c) (sc_status c) (sc_err c) (sc_description c) = (r, t1, d1)"
    by (metis prod_cases3)
  obtain rs1 where rs1: "runSets (t1, d1) cs = (rs1, t', d')" and rs: "rs = r # rs1"
    using Cons.prems(3) st by (auto split: prod.splits)
  have keep: "map_of (statMap t1) n = Some old"
  proof (cases "sc_node c = n")
    case True
    then show ?thesis using st st_set_noop[OF Cons.prems(1), of "sc_status c" d] Cons.prems(1,2) by simp
  next
    case False
    then show ?thesis using st_set_other_keeps[OF Cons.prems(1) _ st] by simp
  qed
  have r: "sc_node c = n \<Longrightarrow> r = Inr False"
    using st st_set_noop[OF Cons.prems(1), of "sc_status c" d] Cons.prems(2) by simp
  note ih = Cons.IH[OF keep Cons.prems(2) rs1]
  show ?case
  proof (intro conjI allI impI)
    show "map_of (statMap t') n = Some old" using ih by simp
    show "length rs = length (c # cs)" using ih rs by simp
    fix i assume "i < length (c # cs)" and "sc_node ((c # cs) ! i) = n"
    then show "rs ! i = Inr False"
      using ih r rs by (cases i) auto
  qed
qed

lemma familiesOk_iff:
  "familiesOk t \<longleftrightarrow> distinct (map fst (statMap t))
     \<and> (\<forall>s. primStatus t s = int (primNodesAt t s))
     \<and> (\<forall>s. nonPrimStatus t s = int (nonPrimNodesAt t s))"
  using deployStatusKeys_all by (auto simp: familiesOk_def list_all_iff)

lemma filter_update_kind_nat:
  assumes "distinct (map fst sm)" and "map_of sm n = Some old"
  shows "length (filter (\<lambda>(k, e). P k \<and> g e = s) (AList.update n v sm))
           + (if P n \<and> g old = s then 1 else 0)
         = length (filter (\<lambda>(k, e). P k \<and> g e = s) sm) + (if P n \<and> g v = s then 1 else 0)"
  using assms
proof (induction sm)
  case Nil
  then show ?case by simp
next
  case (Cons p sm)
  obtain k e where p: "p = (k, e)" by (cases p)
  show ?case
  proof (cases "k = n")
    case True
    then show ?thesis using Cons.prems p by simp
  next
    case False
    then have "map_of sm n = Some old" "distinct (map fst sm)"
      using Cons.prems p by auto
    then have "length (filter (\<lambda>(k, e). P k \<and> g e = s) (AList.update n v sm))
                 + (if P n \<and> g old = s then 1 else 0)
               = length (filter (\<lambda>(k, e). P k \<and> g e = s) sm)
                 + (if P n \<and> g v = s then 1 else 0)"
      using Cons.IH by blast
    then show ?thesis using False p by (simp split: if_splits)
  qed
qed

lemma filter_update_kind:
  assumes "distinct (map fst sm)" and "map_of sm n = Some old"
  shows "int (length (filter (\<lambda>(k, e). P k \<and> g e = s) (AList.update n v sm)))
         = int (length (filter (\<lambda>(k, e). P k \<and> g e = s) sm))
           - (if P n \<and> g old = s then 1 else 0) + (if P n \<and> g v = s then 1 else 0)"
  using filter_update_kind_nat[OF assms, of P g s v] by (simp split: if_splits)

lemma st_set_familiesOk:
  assumes "familiesOk t" and "st_set (t, d) n s err desc = (r, t', d')"
  shows "familiesOk t'"
proof (cases rule: st_set_cases[where t=t and n=n and s=s and d=d and err=err and desc=desc])
  case (unknown e)
  then show ?thesis using assms by simp
next
  case (noop old)
  then show ?thesis using assms by simp
next
  case (changed old r1 t1 d1)
  then have eq: "t' = t1" using assms(2) by simp
  have dist: "distinct (map fst (statMap t))"
    and pc: "\<And>x. primStatus t x = int (primNodesAt t x)"
    and nc: "\<And>x. nonPrimStatus t x = int (nonPrimNodesAt t x)"
    using assms(1) by (simp_all add: familiesOk_iff)
  have keys: "map fst (statMap t') = map fst (statMap t)"
    using changed eq by (simp add: update_keys_same)
  have p: "primStatus t' x = int (primNodesAt t' x)" for x
    using filter_update_kind[OF dist changed(1), of isPrimNode toDeployStatus x s]
      changed(5,7) eq pc[of x]
    by (simp add: primNodesAt_def move_apply)
  have q: "nonPrimStatus t' x = int (nonPrimNodesAt t' x)" for x
    using filter_update_kind[OF dist changed(1), of isNonPrimNode toDeployStatus x s]
      changed(5,8) eq nc[of x]
    by (simp add: nonPrimNodesAt_def move_apply)
  show ?thesis using keys dist p q by (simp add: familiesOk_iff)
qed

lemma runSets_familiesOk:
  assumes "familiesOk (fst td)" and "runSets td cs = (rs, t', d')"
  shows "familiesOk t'"
  using assms
proof (induction cs arbitrary: td rs)
  case Nil
  then show ?case by auto
next
  case (Cons c cs)
  obtain t d where td: "td = (t, d)" by (cases td)
  obtain r t1 d1 where st: "st_set (t, d) (sc_node c) (sc_status c) (sc_err c) (sc_description c) = (r, t1, d1)"
    by (metis prod_cases3)
  obtain rs1 where rs1: "runSets (t1, d1) cs = (rs1, t', d')"
    using Cons.prems(2) td st by (auto split: prod.splits)
  have "familiesOk t1" using st_set_familiesOk[OF _ st] Cons.prems(1) td by simp
  then show ?case using Cons.IH[of "(t1, d1)" rs1] rs1 by simp
qed

lemma constructor_fold_families:
  "primStatus (foldl constructor_node t ns)
     = (\<lambda>s. primStatus t s + (if s = Waiting then int (length (filter isPrimNode ns)) else 0))
   \<and> nonPrimStatus (foldl constructor_node t ns)
     = (\<lambda>s. nonPrimStatus t s + (if s = Waiting then int (length (filter isNonPrimNode ns)) else 0))"
proof (induction ns arbitrary: t)
  case Nil
  show ?case by (auto simp: fun_eq_iff)
next
  case (Cons n ns)
  show ?case
    using Cons.IH[of "constructor_node t n"] constructor_node_frame[of t n]
    by (auto simp: incr_def fun_eq_iff)
qed

lemma create_families:
  "primStatus (fst (createStatusTracker options d))
     = newStatus(Waiting := int (length (filter isPrimNode (opt_nodes options))))
   \<and> nonPrimStatus (fst (createStatusTracker options d))
     = newStatus(Waiting := int (length (filter isNonPrimNode (opt_nodes options))))"
  using constructor_fold_families[of _ "opt_nodes options"]
  by (auto simp: createStatusTracker_def initDeploymentStatus_frame StatusTrackerImpl_def
        newStatus_def fun_eq_iff)

lemma create_familiesOk:
  assumes "distinct (opt_nodes options)"
  shows "familiesOk (fst (createStatusTracker options d))"
proof -
  let ?t = "fst (createStatusTracker options d)"
  have sm: "statMap ?t = map (\<lambda>n. (n, Std Waiting)) (opt_nodes options)"
    by (rule create_statMap[OF assms])
  have d: "distinct (map fst (statMap ?t))" using assms by (simp add: sm comp_def)
  have p: "primStatus ?t s = int (primNodesAt ?t s)" for s
    by (simp add: create_families primNodesAt_def sm filter_map comp_def newStatus_def)
  have q: "nonPrimStatus ?t s = int (nonPrimNodesAt ?t s)" for s
    by (simp add: create_families nonPrimNodesAt_def sm filter_map comp_def newStatus_def)
  show ?thesis using d p q by (simp add: familiesOk_iff)
qed

lemma st_set_unchanged:
  assumes "st_set (t, d) n s err desc = (Inr False, t', d')"
  shows "t' = t \<and> d' = d"
  using assms
  by (auto simp: st_set_def Let_def split: sum.splits if_splits)

lemma st_set_moves:
  assumes "st_set (t, d) n s err desc = (Inr True, t', d')"
  shows "\<exists>old. st_get t n = Inr old \<and> old \<noteq> s \<and> \<not> isFinalStatus old
     \<and> map_of (statMap t') n = Some s
     \<and> nodeStatus t' = incr (decr (nodeStatus t) (toDeployStatus old)) (toDeployStatus s)
     \<and> primStatus t' = (if isPrimNode n
                         then incr (decr (primStatus t) (toDeployStatus old)) (toDeployStatus s)
                         else primStatus t)
     \<and> nonPrimStatus t' = (if isNonPrimNode n
                            then incr (decr (nonPrimStatus t) (toDeployStatus old)) (toDeployStatus s)
                            else nonPrimStatus t)"
proof (cases rule: st_set_cases[where t=t and n=n and s=s and d=d and err=err and desc=desc])
  case (unknown e)
  then show ?thesis using assms by simp
next
  case (noop old)
  then show ?thesis using assms by simp
next
  case (changed old r1 t1 d1)
  then have eq: "t' = t1" using assms by simp
  have g: "st_get t n = Inr old" using changed(1) by (simp add: st_get_def)
  have m: "map_of (statMap t') n = Some s"
    using changed(5) eq by (simp add: update_conv')
  show ?thesis using g m changed eq by auto
qed


section \<open>History commits and dry-run passes: helper lemmas\<close>

lemma commit_sets_last:
  "commit isc ret sj st e = Inr st1 \<Longrightarrow> lastCommit st1 = Some (cd_status e)"
  by (auto simp: commit_def Let_def split: if_splits)

lemma writeStatus_dry: "stepID t = None \<Longrightarrow> writeStatus t d n err = Inr d"
  by (simp add: writeStatus_def split: option.splits)

lemma st_set_dry:
  assumes "stepID t = None" and "st_set (t, d) n s err desc = (r, t', d')"
  shows "d' = d \<and> stepID t' = None \<and> dryRun t' = dryRun t"
proof (cases rule: st_set_cases[where t=t and n=n and s=s and d=d and err=err and desc=desc])
  case (unknown e)
  then show ?thesis using assms by simp
next
  case (noop old)
  then show ?thesis using assms by simp
next
  case (changed old r1 t1 d1)
  then have eq: "t' = t1" "d' = d1" using assms(2) by simp_all
  define t2 where "t2 = updateCount (t\<lparr>statMap := AList.update n s (statMap t)\<rparr>) n
                          (toDeployStatus old) (toDeployStatus s)"
  have s2: "stepID t2 = None" using assms(1) by (simp add: t2_def updateCount_frame)
  have "d' = d"
  proof (cases "updateTask t2 n old (toDeployStatus s) err desc")
    case (Inl e)
    then show ?thesis using assms(2) changed(1,2,3)
      by (simp add: st_set_def st_get_def Let_def t2_def)
  next
    case (Inr t3)
    then have "stepID t3 = None" using updateTask_frame[OF Inr] s2 by simp
    then show ?thesis using assms(2) changed(1,2,3) Inr
      by (simp add: st_set_def st_get_def Let_def t2_def writeStatus_dry)
  qed
  then show ?thesis using changed eq assms(1) by simp
qed

lemma st_complete_dry: "stepID t = None \<Longrightarrow> snd (st_complete (t, d) sc) = d"
  by (simp add: st_complete_def Let_def)

lemma commit_dry:
  "bc_dryRun ret \<Longrightarrow> commit isc ret sj st e = Inr st1 \<Longrightarrow> cs_deployment st1 = cs_deployment st"
  by (auto simp: commit_def Let_def split: if_splits)

lemma startPass_dry:
  "bc_dryRun ret \<Longrightarrow> dryInv (cs_deployment st) (startPass ret options st)"
  using constructor_fold_frame[of _ "opt_nodes options"]
  by (simp add: startPass_def dryInv_def createStatusTracker_def initDeploymentStatus_def
        StatusTrackerImpl_def Let_def split: prod.splits)

lemma withTrackerStore_set_dry:
  assumes "dryInv d ps"
  shows "dryInv d (withTrackerStore ps (snd (st_set (trackerStore ps) n s err desc)))"
proof -
  obtain r t' d' where st: "st_set (ps_tracker ps, d) n s err desc = (r, t', d')"
    by (metis prod_cases3)
  have "d' = d \<and> stepID t' = None \<and> dryRun t' = dryRun (ps_tracker ps)"
    using st_set_dry[OF _ st] assms by (simp add: dryInv_def)
  then show ?thesis using assms st
    by (simp add: dryInv_def withTrackerStore_def trackerStore_def)
qed

lemma passStep_dry:
  assumes "bc_dryRun ret" and "dryInv d ps"
  shows "dryInv d (passStep isc ret ps op)"
proof (cases op)
  case (PSet c)
  then show ?thesis using withTrackerStore_set_dry[OF assms(2)] by simp
next
  case (PComplete sc)
  then show ?thesis using assms(2) st_complete_dry[of "ps_tracker ps" d sc]
    by (simp add: dryInv_def withTrackerStore_def trackerStore_def)
next
  case (PCommit e sj)
  then show ?thesis using assms commit_dry[OF assms(1), of isc sj "ps_commit ps" e]
    by (auto simp: dryInv_def split: sum.splits)
next
  case (PAct a)
  have "dryRun (ps_tracker ps)" using assms(2) by (simp add: dryInv_def)
  then show ?thesis using PAct withTrackerStore_set_dry[OF assms(2)]
    by (simp add: runAction_def Let_def)
qed

lemma runPass_dry:
  assumes "bc_dryRun ret" and "dryInv d ps"
  shows "dryInv d (foldl (passStep isc ret) ps ops)"
  using assms(2)
  by (induction ops arbitrary: ps) (simp_all add: passStep_dry[OF assms(1)])

lemma updateTask_dry_char:
  assumes "dryRun t" and "node_element n = Some el" and "map_of (taskMap t) n = Some key"
      and "tGroup t key = Some tk"
  shows "\<exists>tk'. updateTask t n old new err desc = Inr (t\<lparr>tGroup := (tGroup t)(key \<mapsto> tk')\<rparr>)
           \<and> task_state tk' =
               (if err \<noteq> None then TaskFailed
                else if isGoalStatus (Std new) \<and> (task_state tk = TaskCreated \<or> task_state tk = TaskStarted)
                     then TaskSkipped
                else task_state tk)"
proof -
  have g: "getTask t n = Inr (Some key)"
    using assms by (simp add: getTask_def shouldTrackStatus_def)
  define t1 where "t1 = (case desc of
                       Some dsc \<Rightarrow>
                         if dsc \<noteq> [] then modifyTask t key (\<lambda>tk. tk\<lparr>task_description := dsc\<rparr>)
                         else t
                     | None \<Rightarrow> t)"
  obtain tk1 where t1: "t1 = t\<lparr>tGroup := (tGroup t)(key \<mapsto> tk1)\<rparr>" "task_state tk1 = task_state tk"
  proof (cases "\<exists>dsc. desc = Some dsc \<and> dsc \<noteq> []")
    case True
    then obtain dsc where "desc = Some dsc" "dsc \<noteq> []" by blast
    then have "t1 = t\<lparr>tGroup := (tGroup t)(key \<mapsto> tk\<lparr>task_description := dsc\<rparr>)\<rparr>"
      using assms(4) by (simp add: t1_def modifyTask_def)
    then show ?thesis using that[of "tk\<lparr>task_description := dsc\<rparr>"] by simp
  next
    case False
    then have "t1 = t" by (auto simp: t1_def split: option.splits)
    moreover have "t = t\<lparr>tGroup := (tGroup t)(key \<mapsto> tk)\<rparr>"
      using assms(4) by (simp add: fun_upd_idem)
    ultimately show ?thesis using that[of tk] by simp
  qed
  have tg1: "tGroup t1 key = Some tk1" "dryRun t1" using t1 assms(1) by simp_all
  have upd: "modifyTask t1 key f = t\<lparr>tGroup := (tGroup t)(key \<mapsto> f tk1)\<rparr>" for f
    using t1 by (simp add: modifyTask_def)
  have ts: "taskStateOf t1 key = Some (task_state tk)"
    using tg1 t1(2) by (simp add: taskStateOf_def)
  show ?thesis
  proof (cases err)
    case (Some e)
    then have "updateTask t n old new err desc = Inr (modifyTask t1 key (task_failed e))"
      using g by (simp add: updateTask_def t1_def Let_def)
    then show ?thesis using upd[of "task_failed e"] Some
      by (intro exI[of _ "task_failed e tk1"]) (simp add: task_failed_def)
  next
    case None
    show ?thesis
    proof (cases "isGoalStatus (Std new) \<and> (task_state tk = TaskCreated \<or> task_state tk = TaskStarted)")
      case True
      then have "updateTask t n old new err desc = Inr (modifyTask t1 key task_skipped)"
        using g None tg1(2) ts by (auto simp: updateTask_def t1_def[symmetric] Let_def)
      then show ?thesis using upd[of task_skipped] None True
        by (intro exI[of _ "task_skipped tk1"]) (simp add: task_skipped_def)
    next
      case False
      then have "updateTask t n old new err desc = Inr t1"
        using g None tg1(2) ts by (auto simp: updateTask_def t1_def[symmetric] Let_def)
      then show ?thesis using t1 None False
        by (intro exI[of _ tk1]) auto
    qed
  qed
qed

lemma st_set_changed_tracker:
  assumes "map_of (statMap t) n = Some old" and "s \<noteq> old" and "\<not> isFinalStatus old"
      and "updateTask (updateCount (t\<lparr>statMap := AList.update n s (statMap t)\<rparr>) n
              (toDeployStatus old) (toDeployStatus s)) n old (toDeployStatus s) err desc = Inr t3"
  shows "fst (snd (st_set (t, d) n s err desc)) = t3"
  using assms
  by (simp add: st_set_def st_get_def Let_def split: sum.splits)

lemma isGoalStatus_toDeployStatus: "isGoalStatus (Std (toDeployStatus s)) = isGoalStatus s"
  by (cases s) (simp_all add: isGoalStatus_def)

lemma st_set_skipInv:
  assumes dry: "dryRun t" and inv: "skipInv fl t" and e: "err = None \<or> fl"
      and st: "st_set (t, d) n s err desc = (r, t', d')"
  shows "skipInv fl t'"
proof (cases rule: st_set_cases[where t=t and n=n and s=s and d=d and err=err and desc=desc])
  case (unknown e)
  then show ?thesis using inv st by simp
next
  case (noop old)
  then show ?thesis using inv st by simp
next
  case (changed old r1 t1 d1)
  then have eq: "t' = t1" using st by simp
  let ?S = "{TaskCreated, TaskSkipped} \<union> (if fl then {TaskFailed} else {})"
  let ?G = "{TaskSkipped} \<union> (if fl then {TaskFailed} else {})"
  have ts: "taskStatesIn ?S t" and gt: "goalTasksIn ?G t"
    using inv by (simp_all add: skipInv_def)
  define t2 where "t2 = updateCount (t\<lparr>statMap := AList.update n s (statMap t)\<rparr>) n
                          (toDeployStatus old) (toDeployStatus s)"
  have t2: "tGroup t2 = tGroup t" "taskMap t2 = taskMap t" "dryRun t2"
           "statMap t2 = AList.update n s (statMap t)"
    using dry by (simp_all add: t2_def updateCount_frame)
  have mo: "map_of (statMap t2) = (map_of (statMap t))(n \<mapsto> s)"
    by (simp add: t2 update_conv')
  show ?thesis
  proof (cases "node_element n")
    case None
    then have "updateTask t2 n old (toDeployStatus s) err desc = Inr t2"
      by (simp add: updateTask_def getTask_def shouldTrackStatus_def)
    then have t': "t' = t2"
      using st_set_changed_tracker[OF changed(1,2,3), of err desc t2 d] st by (simp add: t2_def)
    have "taskStatesIn ?S t'" using ts t2 by (simp add: taskStatesIn_def t')
    moreover have "goalTasksIn ?G t'"
      unfolding goalTasksIn_def
    proof (intro allI impI)
      fix m e el
      assume m: "map_of (statMap t') m = Some e" and el: "node_element m = Some el"
      then have "m \<noteq> n" using None by auto
      then have "map_of (statMap t) m = Some e" using m t' mo by simp
      then show "map_of (taskMap t') m = Some (el_id el)
                 \<and> (\<exists>tk. tGroup t' (el_id el) = Some tk \<and> (isGoalStatus e \<longrightarrow> task_state tk \<in> ?G))"
        using gt el t2 t' unfolding goalTasksIn_def by simp
    qed
    ultimately show ?thesis by (simp add: skipInv_def)
  next
    case (Some el)
    obtain tk where tm: "map_of (taskMap t) n = Some (el_id el)"
      and tg: "tGroup t (el_id el) = Some tk"
      using gt changed(1) Some unfolding goalTasksIn_def by blast
    have tkS: "task_state tk \<in> ?S" using ts tg by (auto simp: taskStatesIn_def)
    obtain tk' where ut: "updateTask t2 n old (toDeployStatus s) err desc
                            = Inr (t2\<lparr>tGroup := (tGroup t2)(el_id el \<mapsto> tk')\<rparr>)"
      and st': "task_state tk' =
               (if err \<noteq> None then TaskFailed
                else if isGoalStatus (Std (toDeployStatus s))
                        \<and> (task_state tk = TaskCreated \<or> task_state tk = TaskStarted)
                     then TaskSkipped
                else task_state tk)"
      using updateTask_dry_char[OF t2(3) Some, of "el_id el" tk old "toDeployStatus s" err desc] tm tg t2
      by auto
    have t': "t' = t2\<lparr>tGroup := (tGroup t)(el_id el \<mapsto> tk')\<rparr>"
      using st_set_changed_tracker[OF changed(1,2,3), of err desc _ d] ut st t2 by (simp add: t2_def)
    have tk'S: "task_state tk' \<in> ?S" using st' tkS e by (auto split: if_splits)
    have "taskStatesIn ?S t'"
      using ts tk'S unfolding taskStatesIn_def t' by (auto split: if_splits)
    moreover have "goalTasksIn ?G t'"
      unfolding goalTasksIn_def
    proof (intro allI impI)
      fix m e1 el1
      assume m: "map_of (statMap t') m = Some e1" and el1: "node_element m = Some el1"
      show "map_of (taskMap t') m = Some (el_id el1)
                 \<and> (\<exists>tk. tGroup t' (el_id el1) = Some tk \<and> (isGoalStatus e1 \<longrightarrow> task_state tk \<in> ?G))"
      proof (cases "m = n")
        case True
        then have "e1 = s" "el1 = el" using m el1 Some t' mo by simp_all
        moreover have "isGoalStatus s \<Longrightarrow> task_state tk' \<in> ?G"
          using st' tkS e by (auto simp: isGoalStatus_toDeployStatus split: if_splits)
        ultimately show ?thesis using tm t2 t' True by simp
      next
        case False
        then have old1: "map_of (statMap t) m = Some e1" using m t' mo by simp
        then obtain tkm where a: "map_of (taskMap t) m = Some (el_id el1)"
          and b: "tGroup t (el_id el1) = Some tkm"
          and c: "isGoalStatus e1 \<longrightarrow> task_state tkm \<in> ?G"
          using gt el1 unfolding goalTasksIn_def by blast
        show ?thesis
        proof (cases "el_id el1 = el_id el")
          case True
          then have "tkm = tk" using b tg by simp
          then have "isGoalStatus e1 \<Longrightarrow> task_state tk' \<in> ?G"
            using c st' e by (auto split: if_splits)
          then show ?thesis using a t2 t' True by simp
        next
          case False
          then show ?thesis using a b c t2 t' by simp
        qed
      qed
    qed
    ultimately show ?thesis by (simp add: skipInv_def)
  qed
qed

lemma constructor_node_consInv:
  assumes "consInv t"
  shows "consInv (constructor_node t n)"
proof (cases "node_element n")
  case None
  then have c: "constructor_node t n = t\<lparr>statMap := AList.update n (Std Waiting) (statMap t)\<rparr>"
    by (simp add: constructor_node_def)
  show ?thesis using assms None unfolding consInv_def c
    by (auto simp: update_conv' split: if_splits)
next
  case (Some el)
  define g where "g = tGroup_add (tGroup t) (el_id el) (el_componentName el) (isTrivial n)"
  have tg: "tGroup (constructor_node t n) = g"
    and tm: "taskMap (constructor_node t n) = AList.update n (el_id el) (taskMap t)"
    and sm: "statMap (constructor_node t n) = AList.update n (Std Waiting) (statMap t)"
    using Some by (simp_all add: constructor_node_def Let_def shouldTrackStatus_def g_def)
  have g1: "g (el_id el) \<noteq> None" by (simp add: g_def tGroup_add_def split: option.splits)
  have g2: "tGroup t k \<noteq> None \<Longrightarrow> g k \<noteq> None" for k
    by (auto simp: g_def tGroup_add_def split: option.splits)
  have g3: "g k = Some tk \<Longrightarrow> task_state tk = TaskCreated" for k tk
    using assms by (auto simp: g_def tGroup_add_def consInv_def split: option.splits if_splits)
  show ?thesis
    unfolding consInv_def tg tm sm
  proof (intro conjI allI impI)
    fix k tk assume "g k = Some tk" then show "task_state tk = TaskCreated" by (rule g3)
  next
    fix m e el1
    assume a: "map_of (AList.update n (Std Waiting) (statMap t)) m = Some e"
       and b: "node_element m = Some el1"
    show "map_of (AList.update n (el_id el) (taskMap t)) m = Some (el_id el1)"
      using a b Some assms by (auto simp: update_conv' consInv_def split: if_splits)
    show "g (el_id el1) \<noteq> None"
    proof (cases "m = n")
      case True
      then show ?thesis using b Some g1 by simp
    next
      case False
      then have "map_of (statMap t) m = Some e" using a by (simp add: update_conv')
      then have "tGroup t (el_id el1) \<noteq> None" using assms b unfolding consInv_def by blast
      then show ?thesis by (rule g2)
    qed
  next
    fix m e
    assume "map_of (AList.update n (Std Waiting) (statMap t)) m = Some e"
    then show "e = Std Waiting"
      using assms by (auto simp: update_conv' consInv_def split: if_splits)
  qed
qed

lemma constructor_fold_consInv: "consInv t \<Longrightarrow> consInv (foldl constructor_node t ns)"
  by (induction ns arbitrary: t) (simp_all add: constructor_node_consInv)

lemma StatusTrackerImpl_consInv: "consInv (StatusTrackerImpl options)"
  unfolding StatusTrackerImpl_def
  by (rule constructor_fold_consInv) (simp add: consInv_def)

lemma consInv_skipInv: "consInv t \<Longrightarrow> skipInv fl t"
  unfolding consInv_def skipInv_def taskStatesIn_def goalTasksIn_def
  by (auto simp: isGoalStatus_def) blast+

lemma startPass_skipInv:
  "bc_dryRun ret \<Longrightarrow> skipInv fl (ps_tracker (startPass ret options st))"
  using consInv_skipInv[OF StatusTrackerImpl_consInv, of fl "options\<lparr>opt_dryRun := True\<rparr>"]
        constructor_fold_frame[of _ "opt_nodes options"]
  by (simp add: startPass_def createStatusTracker_def initDeploymentStatus_def
        StatusTrackerImpl_def Let_def split: prod.splits)

lemma withTrackerStore_set_skipInv:
  assumes "dryInv d ps" and "skipInv fl (ps_tracker ps)" and "err = None \<or> fl"
  shows "skipInv fl (ps_tracker (withTrackerStore ps (snd (st_set (trackerStore ps) n s err desc))))"
proof -
  obtain r t' d' where st: "st_set (ps_tracker ps, cs_deployment (ps_commit ps)) n s err desc = (r, t', d')"
    by (metis prod_cases3)
  have "skipInv fl t'"
    using st_set_skipInv[OF _ assms(2,3) st] assms(1) by (simp add: dryInv_def)
  then show ?thesis using st by (simp add: withTrackerStore_def trackerStore_def)
qed

lemma passStep_skipInv:
  assumes "dryInv d ps" and "skipInv fl (ps_tracker ps)" and "fl \<or> noSetErrors [op]"
  shows "skipInv fl (ps_tracker (passStep isc ret ps op))"
proof (cases op)
  case (PSet c)
  then have "sc_err c = None \<or> fl" using assms(3) by (auto simp: noSetErrors_def)
  then show ?thesis using PSet withTrackerStore_set_skipInv[OF assms(1,2)] by simp
next
  case (PComplete sc)
  then show ?thesis using assms(2) by (simp add: withTrackerStore_def)
next
  case (PCommit e sj)
  then show ?thesis using assms(2) by (auto split: sum.splits)
next
  case (PAct a)
  have "dryRun (ps_tracker ps)" using assms(1) by (simp add: dryInv_def)
  then show ?thesis using PAct withTrackerStore_set_skipInv[OF assms(1,2), of None]
    by (simp add: runAction_def Let_def)
qed

lemma runPass_skipInv:
  assumes "bc_dryRun ret" and "dryInv d ps" and "skipInv fl (ps_tracker ps)"
      and "fl \<or> noSetErrors ops"
  shows "skipInv fl (ps_tracker (foldl (passStep isc ret) ps ops))"
  using assms(2,3,4)
proof (induction ops arbitrary: ps)
  case Nil
  then show ?case by simp
next
  case (Cons op ops)
  have 1: "dryInv d (passStep isc ret ps op)" by (rule passStep_dry[OF assms(1) Cons.prems(1)])
  have "fl \<or> noSetErrors [op]" using Cons.prems(3) by (auto simp: noSetErrors_def)
  then have 2: "skipInv fl (ps_tracker (passStep isc ret ps op))"
    by (rule passStep_skipInv[OF Cons.prems(1,2)])
  have 3: "fl \<or> noSetErrors ops" using Cons.prems(3) by (auto simp: noSetErrors_def)
  show ?case using Cons.IH[OF 1 2 3] by simp
qed

section \<open>Observer registry: helper lemmas\<close>






lemma startTasks_skips_undefined:
  "jsGet observers name = Undefined \<Longrightarrow>
   startTasks observers eq (xs @ name # ys) = startTasks observers eq (xs @ ys)"
  by (induction xs) (simp_all add: taskFor_def split: option.splits)

lemma registerObserver_names:
  "registerObserver observers obs name = Inr (observers', n) \<Longrightarrow>
   name \<notin> set objectPrototypeKeys \<and> observers name = None \<and> observers' = observers(name \<mapsto> obs)"
  by (auto simp: registerObserver_def jsGet_def split: if_splits option.splits)

section \<open>Style engine: the child and descendant combinators\<close>

lemma matchWithSelector_single: "matchWithSelector [b] p = matchWithBlock b p"
proof (cases "matchWithBlock b p")
  case (Inl e)
  then show ?thesis by (subst matchWithSelector.simps) simp
next
  case (Inr r)
  have "matchWithSelector [] p = Inr False" by (subst matchWithSelector.simps) simp
  then show ?thesis using Inr by (subst matchWithSelector.simps) (cases r; simp)
qed

lemma matchDescendantFrom_unfold:
  "matchDescendantFrom i s p =
     (if i < length p
      then (case matchWithBlock s (take (length p - i) p) of
              Inl e \<Rightarrow> Inl e
            | Inr b \<Rightarrow> if b then Inr True else matchDescendantFrom (Suc i) s p)
      else Inr False)"
  by (subst matchDescendantFrom.simps) (simp add: matchWithSelector_single)

lemma matchDescendantFrom_True:
  "matchDescendantFrom i s p = Inr True \<longleftrightarrow>
     (\<exists>k. i \<le> k \<and> k < length p
          \<and> matchWithBlock s (take (length p - k) p) = Inr True
          \<and> (\<forall>j. i \<le> j \<and> j < k \<longrightarrow> matchWithBlock s (take (length p - j) p) = Inr False))"
proof (induction "length p - i" arbitrary: i)
  case 0
  then have "\<not> i < length p" by simp
  then show ?case by (subst matchDescendantFrom_unfold) auto
next
  case (Suc n)
  then have lt: "i < length p" and n: "n = length p - Suc i" by simp_all
  note ih = Suc.hyps(1)[OF n]
  show ?case
  proof (cases "matchWithBlock s (take (length p - i) p)")
    case (Inl e)
    have "matchDescendantFrom i s p = Inl e"
      using lt Inl by (subst matchDescendantFrom_unfold) simp
    moreover have "\<not> (\<exists>k. i \<le> k \<and> k < length p
          \<and> matchWithBlock s (take (length p - k) p) = Inr True
          \<and> (\<forall>j. i \<le> j \<and> j < k \<longrightarrow> matchWithBlock s (take (length p - j) p) = Inr False))"
    proof
      assume "\<exists>k. i \<le> k \<and> k < length p
          \<and> matchWithBlock s (take (length p - k) p) = Inr True
          \<and> (\<forall>j. i \<le> j \<and> j < k \<longrightarrow> matchWithBlock s (take (length p - j) p) = Inr False)"
      then obtain k where k: "i \<le> k" "matchWithBlock s (take (length p - k) p) = Inr True"
        "\<forall>j. i \<le> j \<and> j < k \<longrightarrow> matchWithBlock s (take (length p - j) p) = Inr False" by blast
      show False
      proof (cases "k = i")
        case True
        then show False using k(2) Inl by simp
      next
        case False
        then have "i < k" using k(1) by simp
        then show False using k(3) Inl by auto
      qed
    qed
    ultimately show ?thesis by simp
  next
    case (Inr b)
    show ?thesis
    proof (cases b)
      case True
      have "matchDescendantFrom i s p = Inr True"
        using lt Inr True by (subst matchDescendantFrom_unfold) simp
      moreover have "\<exists>k. i \<le> k \<and> k < length p
          \<and> matchWithBlock s (take (length p - k) p) = Inr True
          \<and> (\<forall>j. i \<le> j \<and> j < k \<longrightarrow> matchWithBlock s (take (length p - j) p) = Inr False)"
        using lt Inr True by (intro exI[of _ i]) auto
      ultimately show ?thesis by simp
    next
      case False
      have step: "matchDescendantFrom i s p = matchDescendantFrom (Suc i) s p"
        using lt Inr False by (subst matchDescendantFrom_unfold) simp
      have here: "matchWithBlock s (take (length p - i) p) = Inr False" using Inr False by simp
      have "(\<exists>k. Suc i \<le> k \<and> k < length p
          \<and> matchWithBlock s (take (length p - k) p) = Inr True
          \<and> (\<forall>j. Suc i \<le> j \<and> j < k \<longrightarrow> matchWithBlock s (take (length p - j) p) = Inr False))
         \<longleftrightarrow> (\<exists>k. i \<le> k \<and> k < length p
          \<and> matchWithBlock s (take (length p - k) p) = Inr True
          \<and> (\<forall>j. i \<le> j \<and> j < k \<longrightarrow> matchWithBlock s (take (length p - j) p) = Inr False))"
        (is "?L \<longleftrightarrow> ?R")
      proof
        assume ?L
        then obtain k where k: "Suc i \<le> k" "k < length p"
          "matchWithBlock s (take (length p - k) p) = Inr True"
          "\<forall>j. Suc i \<le> j \<and> j < k \<longrightarrow> matchWithBlock s (take (length p - j) p) = Inr False"
          by blast
        have "\<forall>j. i \<le> j \<and> j < k \<longrightarrow> matchWithBlock s (take (length p - j) p) = Inr False"
          using k(4) here by (metis Suc_leI le_neq_implies_less)
        then show ?R using k by (intro exI[of _ k]) simp
      next
        assume ?R
        then obtain k where k: "i \<le> k" "k < length p"
          "matchWithBlock s (take (length p - k) p) = Inr True"
          "\<forall>j. i \<le> j \<and> j < k \<longrightarrow> matchWithBlock s (take (length p - j) p) = Inr False"
          by blast
        have "k \<noteq> i" using k(3) here by auto
        then have "Suc i \<le> k" using k(1) by simp
        then show ?L using k by (intro exI[of _ k]) simp
      qed
      then show ?thesis using step ih by simp
    qed
  qed
qed

lemma matchDescendantFrom_False:
  "matchDescendantFrom i s p = Inr False \<longleftrightarrow>
     (\<forall>k. i \<le> k \<and> k < length p \<longrightarrow> matchWithBlock s (take (length p - k) p) = Inr False)"
proof (induction "length p - i" arbitrary: i)
  case 0
  then have "\<not> i < length p" by simp
  then show ?case by (subst matchDescendantFrom_unfold) auto
next
  case (Suc n)
  then have lt: "i < length p" and n: "n = length p - Suc i" by simp_all
  note ih = Suc.hyps(1)[OF n]
  show ?case
  proof (cases "matchWithBlock s (take (length p - i) p)")
    case (Inl e)
    have "matchDescendantFrom i s p = Inl e"
      using lt Inl by (subst matchDescendantFrom_unfold) simp
    then show ?thesis using Inl lt by auto
  next
    case (Inr b)
    show ?thesis
    proof (cases b)
      case True
      have "matchDescendantFrom i s p = Inr True"
        using lt Inr True by (subst matchDescendantFrom_unfold) simp
      then show ?thesis using Inr True lt by auto
    next
      case False
      have step: "matchDescendantFrom i s p = matchDescendantFrom (Suc i) s p"
        using lt Inr False by (subst matchDescendantFrom_unfold) simp
      have here: "matchWithBlock s (take (length p - i) p) = Inr False" using Inr False by simp
      have "(\<forall>k. Suc i \<le> k \<and> k < length p \<longrightarrow> matchWithBlock s (take (length p - k) p) = Inr False)
            \<longleftrightarrow> (\<forall>k. i \<le> k \<and> k < length p \<longrightarrow> matchWithBlock s (take (length p - k) p) = Inr False)"
        using here by (metis Suc_leD Suc_leI le_neq_implies_less)
      then show ?thesis using step ih by simp
    qed
  qed
qed

lemma lastOf_snoc: "lastOf (xs @ [x]) = (xs, Some x)"
  by (simp add: lastOf_def)

lemma matchWithBlock_child:
  "matchWithBlock (prefix @ [Child]) path =
     (if length path \<le> 1 then Inr False else matchWithBlock prefix (butlast path))"
  by (subst matchWithBlock.simps)
     (auto simp: lastOf_snoc matchFrag.simps matchChild_def Suc_le_eq
           simp flip: length_greater_0_conv)

lemma matchWithBlock_descendant:
  "matchWithBlock (prefix @ [Descendant]) path =
     (if prefix = [] then Inl (InternalError ''validated but malformed CSS'')
      else matchDescendantFrom 1 prefix path)"
  by (subst matchWithBlock.simps) (simp add: lastOf_snoc matchDescendant.simps)

lemma descendant_reindex_True:
  "(\<exists>i. 1 \<le> i \<and> i < length p \<and> P (length p - i) \<and> (\<forall>j. 1 \<le> j \<and> j < i \<longrightarrow> Q (length p - j)))
   \<longleftrightarrow> (\<exists>k. 1 \<le> k \<and> k < length p \<and> P k \<and> (\<forall>j. k < j \<and> j < length p \<longrightarrow> Q j))"
  (is "?L \<longleftrightarrow> ?R")
proof
  assume ?L
  then obtain i where i: "1 \<le> i" "i < length p" "P (length p - i)"
    "\<forall>j. 1 \<le> j \<and> j < i \<longrightarrow> Q (length p - j)" by blast
  have "\<forall>j. length p - i < j \<and> j < length p \<longrightarrow> Q j"
  proof (intro allI impI)
    fix j assume j: "length p - i < j \<and> j < length p"
    then have "1 \<le> length p - j \<and> length p - j < i" by auto
    then have "Q (length p - (length p - j))" using i(4) by blast
    then show "Q j" using j by simp
  qed
  then show ?R using i by (intro exI[of _ "length p - i"]) auto
next
  assume ?R
  then obtain k where k: "1 \<le> k" "k < length p" "P k"
    "\<forall>j. k < j \<and> j < length p \<longrightarrow> Q j" by blast
  have "\<forall>j. 1 \<le> j \<and> j < length p - k \<longrightarrow> Q (length p - j)"
  proof (intro allI impI)
    fix j assume "1 \<le> j \<and> j < length p - k"
    then have "k < length p - j \<and> length p - j < length p" by auto
    then show "Q (length p - j)" using k(4) by blast
  qed
  then show ?L using k by (intro exI[of _ "length p - k"]) auto
qed

lemma descendant_reindex_All:
  "(\<forall>i. 1 \<le> i \<and> i < length p \<longrightarrow> Q (length p - i))
   \<longleftrightarrow> (\<forall>k. 1 \<le> k \<and> k < length p \<longrightarrow> Q k)"
  (is "?L \<longleftrightarrow> ?R")
proof
  assume l: ?L
  show ?R
  proof (intro allI impI)
    fix k assume k: "1 \<le> k \<and> k < length p"
    then have "1 \<le> length p - k \<and> length p - k < length p" by auto
    then have "Q (length p - (length p - k))" using l by blast
    then show "Q k" using k by simp
  qed
next
  assume r: ?R
  show ?L
  proof (intro allI impI)
    fix i assume "1 \<le> i \<and> i < length p"
    then have "1 \<le> length p - i \<and> length p - i < length p" by auto
    then show "Q (length p - i)" using r by blast
  qed
qed

section \<open>Claims\<close>

text \<open>
  Claim C1 (no double match). If the rule \<open>r\<close> matches the element instance at the
  end of \<open>path\<close> during a pass, then the match is recorded: \<open>ruleHasMatched\<close> returns
  true for that instance and \<open>r\<close>, and still does after any further steps of the pass
  (evaluations of rules, calls of the registry functions). A second evaluation of \<open>r\<close>
  against the same instance, at any later point of the pass and on any path that ends
  at it, does not match (although the selector of \<open>r\<close> still matches the path) and
  changes nothing: the rule is not applied again. In a whole pass, started from the
  fresh registry, no rule is applied twice to the same instance. For the registry alone:
  once \<open>ruleMatches reg el r0\<close> has recorded a match, \<open>ruleHasMatched\<close> returns true
  for \<open>el\<close> and \<open>r0\<close>, also after any further operations on that registry; in the fresh
  registry of a pass no rule has matched.
\<close>

theorem no_double_match:
  assumes "evaluateRule st path r = (Inr True, st1)"
    and "path' \<noteq> []" and "fst (last path') = fst (last path)"
  shows "snd (ruleHasMatched (ss_reg st1) (fst (last path)) r)
     \<and> snd (ruleHasMatched (ss_reg (foldl styleStep st1 steps)) (fst (last path)) r)
     \<and> rule_match r (map snd path) = Inr True
     \<and> evaluateRule (foldl styleStep st1 steps) path' r = (Inr False, foldl styleStep st1 steps)
     \<and> evaluateRule (foldl styleStep st1 steps) path r = (Inr False, foldl styleStep st1 steps)
     \<and> ss_applied st1 = ss_applied st @ [(fst (last path), r)]
     \<and> distinct (ss_applied (foldl styleStep newPass steps0))
     \<and> snd (ruleHasMatched (ruleMatches reg el r0) el r0) = True
     \<and> snd (ruleHasMatched (foldl applyRegOp (ruleMatches reg el r0) ops) el r0) = True
     \<and> snd (ruleHasMatched createMatchInfoReg el r0) = False"
proof -
  have m: "fst (evaluateRule st path r) = Inr True" and s1: "snd (evaluateRule st path r) = st1"
    using assms(1) by simp_all
  have rec1: "recordedMatch (ss_reg st1) (fst (last path)) r"
    and rm: "rule_match r (map snd path) = Inr True"
    and ap: "ss_applied st1 = ss_applied st @ [(fst (last path), r)]"
  proof -
    show "recordedMatch (ss_reg st1) (fst (last path)) r"
      by (cases rule: evaluateRule_cases[of st path r]) (use m s1 in auto)
    show "rule_match r (map snd path) = Inr True"
      by (cases rule: evaluateRule_cases[of st path r]) (use m s1 in auto)
    show "ss_applied st1 = ss_applied st @ [(fst (last path), r)]"
      by (cases rule: evaluateRule_cases[of st path r]) (use m s1 in auto)
  qed
  have rec2: "recordedMatch (ss_reg (foldl styleStep st1 steps)) (fst (last path)) r"
    using rec1 by (rule steps_recorded)
  have a1: "evaluateRule (foldl styleStep st1 steps) path' r = (Inr False, foldl styleStep st1 steps)"
    using rec2 assms(3) evaluateRule_again[of "foldl styleStep st1 steps" path' r] by simp
  have a2: "evaluateRule (foldl styleStep st1 steps) path r = (Inr False, foldl styleStep st1 steps)"
    using rec2 by (rule evaluateRule_again)
  have d: "distinct (ss_applied (foldl styleStep newPass steps0))"
    using steps_applied[of newPass steps0] by (simp add: newPass_def)
  have f: "\<And>e q. \<not> recordedMatch createMatchInfoReg e q"
    by (simp add: recordedMatch_def createMatchInfoReg_def)
  show ?thesis
    using rec1 rec2 rm a1 a2 ap d f
    by (simp add: ruleHasMatched_recorded recorded_ruleMatches recorded_foldl)
qed

theorem no_double_match_witness:
  "fst (evaluateRule (newPass :: nat StyleState) exMounted exRuleEmpty) = Inr True
   \<and> rule_match exRuleEmpty (map snd exMounted) = Inr True
   \<and> fst (evaluateRule
            (foldl styleStep (snd (evaluateRule (newPass :: nat StyleState) exMounted exRuleEmpty))
               exSteps)
            exMounted exRuleEmpty) = Inr False
   \<and> ss_applied
        (snd (evaluateRule
                (foldl styleStep (snd (evaluateRule (newPass :: nat StyleState) exMounted exRuleEmpty))
                   exSteps)
                exMounted exRuleEmpty))
       = [(3, exRuleEmpty), (3, exRuleGroup)]"
proof -
  let ?st1 = "snd (evaluateRule (newPass :: nat StyleState) exMounted exRuleEmpty)"
  have c: "fst (evaluateRule (newPass :: nat StyleState) exMounted exRuleEmpty) = Inr True"
    by code_simp
  have e: "evaluateRule (newPass :: nat StyleState) exMounted exRuleEmpty = (Inr True, ?st1)"
    using c by (cases "evaluateRule (newPass :: nat StyleState) exMounted exRuleEmpty") simp
  have n: "exMounted \<noteq> []" by (simp add: exMounted_def)
  have a: "ss_applied (foldl styleStep ?st1 exSteps) = [(3, exRuleEmpty), (3, exRuleGroup)]"
    by code_simp
  note th = no_double_match[OF e n refl, of exSteps]
  have t3: "rule_match exRuleEmpty (map snd exMounted) = Inr True"
    by (rule th[THEN conjunct2, THEN conjunct2, THEN conjunct1])
  have t4: "evaluateRule (foldl styleStep ?st1 exSteps) exMounted exRuleEmpty
            = (Inr False, foldl styleStep ?st1 exSteps)"
    by (rule th[THEN conjunct2, THEN conjunct2, THEN conjunct2, THEN conjunct1])
  show ?thesis using c t3 t4 a by simp
qed



text \<open>
  Claim C3 (status monotonicity). For a node \<open>n\<close> of the tracker with status \<open>old\<close>:
  \<open>st_set\<close> returns false and leaves the tracker (status map, counters, tasks) and the
  deployment store as they were whenever the requested status is \<open>old\<close> or \<open>old\<close> is
  final; the final statuses are \<open>Failed\<close>, \<open>Deployed\<close> and \<open>Destroyed\<close>; and once
  \<open>n\<close> is final, in every later sequence of calls each call on \<open>n\<close> returns false and
  the status of \<open>n\<close> stays \<open>old\<close>.
\<close>

theorem set_noop_on_final_or_same:
  assumes "map_of (statMap t) n = Some old"
  shows "(s = old \<or> isFinalStatus old \<longrightarrow> st_set (t, d) n s err desc = (Inr False, t, d))
     \<and> (isFinalStatus old \<longleftrightarrow> old = Std Failed \<or> old = Std Deployed \<or> old = Std Destroyed)
     \<and> (isFinalStatus old \<longrightarrow>
          (\<forall>cs rs t' d'. runSets (t, d) cs = (rs, t', d') \<longrightarrow>
             map_of (statMap t') n = Some old
             \<and> (\<forall>i < length cs. sc_node (cs ! i) = n \<longrightarrow> rs ! i = Inr False)))"
proof (intro conjI impI allI)
  assume "s = old \<or> isFinalStatus old"
  then show "st_set (t, d) n s err desc = (Inr False, t, d)"
    using st_set_noop[OF assms] by simp
next
  show "isFinalStatus old \<longleftrightarrow> old = Std Failed \<or> old = Std Deployed \<or> old = Std Destroyed"
    by (auto simp: isFinalStatus_def isGoalStatus_def)
next
  fix cs rs t' d'
  assume "isFinalStatus old" and "runSets (t, d) cs = (rs, t', d')"
  then show "map_of (statMap t') n = Some old"
    using runSets_final_stays[OF assms] by blast
next
  fix cs rs t' d' i
  assume "isFinalStatus old" and "runSets (t, d) cs = (rs, t', d')"
     and "i < length cs" and "sc_node (cs ! i) = n"
  then show "rs ! i = Inr False"
    using runSets_final_stays[OF assms] by blast
qed

theorem set_noop_on_final_or_same_witness:
  "map_of (statMap exTracker) exNodeA = Some (Std Failed)
   \<and> isFinalStatus (Std Failed)
   \<and> st_set (exTracker, exStore) exNodeA (Std Deployed) None None
       = (Inr False, exTracker, exStore)
   \<and> fst (runSets (exTracker, exStore) exCalls) ! 1 = Inr False"
proof -
  have h: "map_of (statMap exTracker) exNodeA = Some (Std Failed)"
    unfolding exTracker_def by code_simp
  have f: "isFinalStatus (Std Failed)" by (simp add: isFinalStatus_def)
  note th = set_noop_on_final_or_same[OF h, of "Std Deployed" exStore None None]
  obtain rs t' d' where r: "runSets (exTracker, exStore) exCalls = (rs, t', d')"
    by (metis prod_cases3)
  have n: "1 < length exCalls \<and> sc_node (exCalls ! 1) = exNodeA" by (simp add: exCalls_def)
  have "rs ! 1 = Inr False" using th f r n by blast
  then show ?thesis using th h f r by simp
qed

text \<open>
  Claim C4 (overall deployment status). For a tracker constructed over a set of nodes
  and brought to any state by calls of \<^verbatim>\<open>set\<close>, \<open>st_complete\<close> throws an
  \<open>InternalError\<close> if some node is in status \<open>Initial\<close>; otherwise it returns
  \<open>Failed\<close> if some node is \<open>Failed\<close>, else the goal status if every node is at a goal
  status (\<open>Deployed\<close> or \<open>Destroyed\<close>), else \<open>StateChanged\<close> if the argument is true, else
  the in-progress variant of the goal status.
\<close>

theorem complete_deployment_status:
  assumes "distinct (opt_nodes options)"
      and "runSets (createStatusTracker options d0) calls = (rs, t, d)"
  shows "map fst (statMap t) = opt_nodes options
     \<and> fst (st_complete (t, d) stateChanged) =
        (if Std Initial \<in> snd ` set (statMap t)
         then Inl (InternalError ''Nodes should not be in Initial state'')
         else Inr \<lparr>ec_deploymentStatus =
                  (if Std Failed \<in> snd ` set (statMap t) then OpStatus Failed
                   else if \<forall>e \<in> snd ` set (statMap t). isGoalStatus e
                        then OpStatus (goalOf (goalStatus t))
                   else if stateChanged then StateChanged
                   else OpStatus (goalToInProgress (goalStatus t))),
                ec_nodeStatus = nodeStatus t,
                ec_nonPrimStatus = nonPrimStatus t,
                ec_primStatus = primStatus t,
                ec_stateChanged = stateChanged\<rparr>)"
proof -
  obtain t0 d1 where c: "createStatusTracker options d0 = (t0, d1)" by (cases "createStatusTracker options d0")
  have c0: "countsOk t0" using create_countsOk[OF assms(1), of d0] c by simp
  have k0: "map fst (statMap t0) = opt_nodes options"
    using create_statMap[OF assms(1), of d0] c by (simp add: comp_def)
  have ok: "countsOk t \<and> map fst (statMap t) = map fst (statMap t0)"
    using runSets_countsOk[of "(t0, d1)" calls rs t d] c0 assms(2) c by simp
  show ?thesis using complete_char[of t d stateChanged] ok k0 by simp
qed

theorem complete_deployment_status_witness:
  "distinct (opt_nodes (exOptions False))
   \<and> map_sum id ec_deploymentStatus (fst (st_complete (exTracker, exStore) True))
       = Inr (OpStatus Failed)"
proof -
  have d: "distinct (opt_nodes (exOptions False))"
    by (simp add: exOptions_def exNodeA_def exNodeB_def exNodeC_def)
  have r: "runSets (createStatusTracker (exOptions False) exDeployment) exCalls
           = (fst (runSets (createStatusTracker (exOptions False) exDeployment) exCalls),
              exTracker, exStore)"
    by (simp add: exTracker_def exStore_def)
  have sm: "statMap exTracker
            = [(exNodeA, Std Failed), (exNodeB, Std Deployed), (exNodeC, Std Waiting)]"
    unfolding exTracker_def by code_simp
  show ?thesis
    using complete_deployment_status[OF d r, where stateChanged = True] d by (simp add: sm)
qed

text \<open>
  Claim C5 (commit ordering). The commit function starts with no last commit. After a
  commit that returned, \<open>lastCommit\<close> is the status committed. If that status is a
  terminal one (\<open>isStatusComplete\<close>, so not \<open>preAct\<close>), the next commit, whatever its
  entry and so also a repetition of the same phase, throws an \<open>InternalError\<close>. If it
  is \<open>preAct\<close>, a second \<open>preAct\<close> commit returns with the state unchanged: no write
  to the store and no error.
\<close>

theorem commit_ordering:
  "(lastCommit (currentState_commitState deployment) = None)
   \<and> (commit isStatusComplete ret sj st e1 = Inr st1 \<longrightarrow> lastCommit st1 = Some (cd_status e1))
   \<and> (commit isStatusComplete ret sj st e1 = Inr st1 \<and> isStatusComplete (cd_status e1)
        \<and> cd_status e1 \<noteq> HPreAct \<longrightarrow>
        commit isStatusComplete ret sj' st1 e2
          = Inl (InternalError ''Attempt to commit a repeated final HistoryStatus''))
   \<and> (commit isStatusComplete ret sj st e1 = Inr st1 \<and> cd_status e1 = HPreAct
        \<and> cd_status e2 = HPreAct \<longrightarrow>
        commit isStatusComplete ret sj' st1 e2 = Inr st1)"
proof (intro conjI impI)
  show "lastCommit (currentState_commitState deployment) = None"
    by (simp add: currentState_commitState_def)
next
  assume "commit isStatusComplete ret sj st e1 = Inr st1"
  then show "lastCommit st1 = Some (cd_status e1)" by (rule commit_sets_last)
next
  assume a: "commit isStatusComplete ret sj st e1 = Inr st1 \<and> isStatusComplete (cd_status e1)
        \<and> cd_status e1 \<noteq> HPreAct"
  then have "lastCommit st1 = Some (cd_status e1)" using commit_sets_last by blast
  then show "commit isStatusComplete ret sj' st1 e2
          = Inl (InternalError ''Attempt to commit a repeated final HistoryStatus'')"
    using a by (simp add: commit_def)
next
  assume a: "commit isStatusComplete ret sj st e1 = Inr st1 \<and> cd_status e1 = HPreAct
        \<and> cd_status e2 = HPreAct"
  then have "lastCommit st1 = Some HPreAct" using commit_sets_last by fastforce
  then show "commit isStatusComplete ret sj' st1 e2 = Inr st1"
    using a by (simp add: commit_def)
qed

theorem commit_ordering_witness:
  "(case commit exIsStatusComplete (exContext False) ''{}''
           (currentState_commitState exDeployment) (exEntry HSuccess) of
      Inl e \<Rightarrow> False
    | Inr st1 \<Rightarrow>
        exIsStatusComplete (cd_status (exEntry HSuccess))
        \<and> commit exIsStatusComplete (exContext False) ''{}'' st1 (exEntry HSuccess)
            = Inl (InternalError ''Attempt to commit a repeated final HistoryStatus''))
   \<and> (case commit exIsStatusComplete (exContext False) ''{}''
           (currentState_commitState exDeployment) (exEntry HPreAct) of
      Inl e \<Rightarrow> False
    | Inr st1 \<Rightarrow>
        length (dep_calls (cs_deployment st1)) = 1
        \<and> commit exIsStatusComplete (exContext False) ''{a:1}'' st1 (exEntry HPreAct) = Inr st1)"
proof -
  let ?st0 = "currentState_commitState exDeployment"
  obtain s1 where s1: "commit exIsStatusComplete (exContext False) ''{}'' ?st0 (exEntry HSuccess) = Inr s1"
    by (simp add: commit_def currentState_commitState_def exContext_def Let_def)
  obtain p1 where p1: "commit exIsStatusComplete (exContext False) ''{}'' ?st0 (exEntry HPreAct) = Inr p1"
    and l: "length (dep_calls (cs_deployment p1)) = 1"
    by (simp add: commit_def currentState_commitState_def exContext_def Let_def commitEntry_def
          exDeployment_def)
  have c: "exIsStatusComplete (cd_status (exEntry HSuccess))" "cd_status (exEntry HSuccess) \<noteq> HPreAct"
          "cd_status (exEntry HPreAct) = HPreAct"
    by (simp_all add: exIsStatusComplete_def exEntry_def)
  note a = commit_ordering[of exDeployment exIsStatusComplete "exContext False" "''{}''" ?st0
              "exEntry HSuccess" s1 "''{}''" "exEntry HSuccess"]
  note b = commit_ordering[of exDeployment exIsStatusComplete "exContext False" "''{}''" ?st0
              "exEntry HPreAct" p1 "''{a:1}''" "exEntry HPreAct"]
  show ?thesis using a b s1 p1 c l by simp
qed

text \<open>
  Claim C6 (combinators). For a non-empty path: a block that ends in a child
  combinator matches only if the path shortened by one element matches the remaining
  prefix of the block (and it is the result of that match, or no match when the path
  has one element). A block that ends in a descendant combinator, with a non-empty
  prefix, tries the strict ancestor paths \<open>take k path\<close> (\<open>1 \<le> k < length path\<close>)
  from the nearest to the furthest: it matches exactly if the prefix matches some
  ancestor path and does not match (without error) every nearer one; it does not match
  exactly if the prefix matches none; so, where no ancestor path raises an error, it
  matches if and only if the prefix matches some strict ancestor path.
\<close>

theorem combinator_matching:
  assumes "path \<noteq> []"
  shows "matchWithBlock (prefix @ [Child]) path
           = (if length path = 1 then Inr False else matchWithBlock prefix (butlast path))
     \<and> (matchWithBlock (prefix @ [Child]) path = Inr True \<longrightarrow>
          matchWithBlock prefix (butlast path) = Inr True)
     \<and> (prefix \<noteq> [] \<longrightarrow>
          (matchWithBlock (prefix @ [Descendant]) path = Inr True \<longleftrightarrow>
             (\<exists>k. 1 \<le> k \<and> k < length path
                  \<and> matchWithBlock prefix (take k path) = Inr True
                  \<and> (\<forall>j. k < j \<and> j < length path \<longrightarrow>
                        matchWithBlock prefix (take j path) = Inr False)))
        \<and> (matchWithBlock (prefix @ [Descendant]) path = Inr False \<longleftrightarrow>
             (\<forall>k. 1 \<le> k \<and> k < length path \<longrightarrow>
                  matchWithBlock prefix (take k path) = Inr False))
        \<and> ((\<forall>k. 1 \<le> k \<and> k < length path \<longrightarrow> \<not> isl (matchWithBlock prefix (take k path))) \<longrightarrow>
             matchWithBlock (prefix @ [Descendant]) path
               = Inr (\<exists>k. 1 \<le> k \<and> k < length path
                         \<and> matchWithBlock prefix (take k path) = Inr True)))"
proof -
  have len: "length path \<le> 1 \<longleftrightarrow> length path = 1" using assms by (cases path) auto
  have c: "matchWithBlock (prefix @ [Child]) path
           = (if length path = 1 then Inr False else matchWithBlock prefix (butlast path))"
    unfolding matchWithBlock_child len by simp
  have c2: "matchWithBlock (prefix @ [Child]) path = Inr True \<longrightarrow>
          matchWithBlock prefix (butlast path) = Inr True"
    using c by (auto split: if_splits)
  have d: "prefix \<noteq> [] \<Longrightarrow>
          (matchWithBlock (prefix @ [Descendant]) path = Inr True \<longleftrightarrow>
             (\<exists>k. 1 \<le> k \<and> k < length path
                  \<and> matchWithBlock prefix (take k path) = Inr True
                  \<and> (\<forall>j. k < j \<and> j < length path \<longrightarrow>
                        matchWithBlock prefix (take j path) = Inr False)))"
    using descendant_reindex_True[of path "\<lambda>k. matchWithBlock prefix (take k path) = Inr True"
            "\<lambda>k. matchWithBlock prefix (take k path) = Inr False"]
    by (simp add: matchWithBlock_descendant matchDescendantFrom_True)
  have e: "prefix \<noteq> [] \<Longrightarrow>
        (matchWithBlock (prefix @ [Descendant]) path = Inr False \<longleftrightarrow>
             (\<forall>k. 1 \<le> k \<and> k < length path \<longrightarrow>
                  matchWithBlock prefix (take k path) = Inr False))"
    using descendant_reindex_All[of path "\<lambda>k. matchWithBlock prefix (take k path) = Inr False"]
    by (simp add: matchWithBlock_descendant matchDescendantFrom_False)
  have f: "matchWithBlock (prefix @ [Descendant]) path
               = Inr (\<exists>k. 1 \<le> k \<and> k < length path
                         \<and> matchWithBlock prefix (take k path) = Inr True)"
    if p: "prefix \<noteq> []"
      and ne: "\<forall>k. 1 \<le> k \<and> k < length path \<longrightarrow> \<not> isl (matchWithBlock prefix (take k path))"
  proof (cases "\<exists>k. 1 \<le> k \<and> k < length path \<and> matchWithBlock prefix (take k path) = Inr True")
    case True
    define K where "K = {k. 1 \<le> k \<and> k < length path \<and> matchWithBlock prefix (take k path) = Inr True}"
    have fin: "finite K" and nonempty: "K \<noteq> {}" using True by (auto simp: K_def)
    define m where "m = Max K"
    have m: "m \<in> K" unfolding m_def using fin nonempty by (rule Max_in)
    have above: "matchWithBlock prefix (take j path) = Inr False" if "m < j" "j < length path" for j
    proof -
      have "j \<notin> K" using that(1) fin m_def by (metis Max_ge leD)
      moreover have "1 \<le> j" using that(1) by simp
      ultimately have "matchWithBlock prefix (take j path) \<noteq> Inr True"
        using that(2) by (simp add: K_def)
      moreover have "\<not> isl (matchWithBlock prefix (take j path))" using ne that \<open>1 \<le> j\<close> by blast
      ultimately show ?thesis by (cases "matchWithBlock prefix (take j path)") auto
    qed
    have "matchWithBlock (prefix @ [Descendant]) path = Inr True"
      using d[OF p] m above unfolding K_def by blast
    then show ?thesis using True by simp
  next
    case False
    have "\<forall>k. 1 \<le> k \<and> k < length path \<longrightarrow> matchWithBlock prefix (take k path) = Inr False"
    proof (intro allI impI)
      fix k assume k: "1 \<le> k \<and> k < length path"
      then have "matchWithBlock prefix (take k path) \<noteq> Inr True" using False by blast
      moreover have "\<not> isl (matchWithBlock prefix (take k path))" using ne k by blast
      ultimately show "matchWithBlock prefix (take k path) = Inr False"
        by (cases "matchWithBlock prefix (take k path)") auto
    qed
    then have "matchWithBlock (prefix @ [Descendant]) path = Inr False" using e[OF p] by blast
    then show ?thesis using False by simp
  qed
  show ?thesis using c c2 d e f by blast
qed

theorem combinator_matching_witness:
  "exPath \<noteq> [] \<and> [Tag ''Root''] \<noteq> []
   \<and> matchWithBlock [Tag ''Root''] (take 1 exPath) = Inr True
   \<and> matchWithBlock [Tag ''Root''] (take 2 exPath) = Inr False
   \<and> matchWithBlock [Tag ''Root''] (take 3 exPath) = Inr False
   \<and> matchWithBlock ([Tag ''Root''] @ [Descendant]) exPath = Inr True
   \<and> matchWithBlock ([Tag ''Group''] @ [Child]) exPath = Inr True
   \<and> matchWithBlock [Tag ''Group''] (butlast exPath) = Inr True"
proof -
  have ne: "exPath \<noteq> []" and len: "length exPath = 4" by (simp_all add: exPath_def)
  have a1: "matchWithBlock [Tag ''Root''] (take 1 exPath) = Inr True" by code_simp
  have a2: "matchWithBlock [Tag ''Root''] (take 2 exPath) = Inr False" by code_simp
  have a3: "matchWithBlock [Tag ''Root''] (take 3 exPath) = Inr False" by code_simp
  have a4: "matchWithBlock ([Tag ''Group''] @ [Child]) exPath = Inr True" by code_simp
  note th1 = combinator_matching[OF ne, of "[Tag ''Root'']"]
  note th2 = combinator_matching[OF ne, of "[Tag ''Group'']"]
  have above: "\<forall>j. 1 < j \<and> j < length exPath \<longrightarrow> matchWithBlock [Tag ''Root''] (take j exPath) = Inr False"
  proof (intro allI impI)
    fix j assume "1 < j \<and> j < length exPath"
    then have "j = 2 \<or> j = 3" using len by auto
    then show "matchWithBlock [Tag ''Root''] (take j exPath) = Inr False" using a2 a3 by auto
  qed
  have ex: "\<exists>k. 1 \<le> k \<and> k < length exPath
                  \<and> matchWithBlock [Tag ''Root''] (take k exPath) = Inr True
                  \<and> (\<forall>j. k < j \<and> j < length exPath \<longrightarrow>
                        matchWithBlock [Tag ''Root''] (take j exPath) = Inr False)"
    using a1 above len by (intro exI[of _ 1]) simp
  have d: "matchWithBlock ([Tag ''Root''] @ [Descendant]) exPath = Inr True"
    using th1 ex by blast
  have c: "matchWithBlock [Tag ''Group''] (butlast exPath) = Inr True"
    using th2 a4 by blast
  show ?thesis using ne a1 a2 a3 a4 d c by simp
qed




text \<open>
  Claim C8 (dry-run purity). In dry-run mode, after the creation of the tracker and
  any sequence of status changes, actions, completions and commits of a pass: the
  deployment store is what it was before the pass (no step ID was allocated, no
  \<^verbatim>\<open>status\<close>, \<^verbatim>\<open>elementStatus\<close> or \<^verbatim>\<open>commitEntry\<close> was written), the tracker has no
  step ID, no action executor was called, and every element-bearing node at a goal
  status has its task in state \<open>Skipped\<close>, or \<open>Failed\<close> if a status change of the
  pass carried an error.
\<close>

theorem dry_run_purity:
  assumes "bc_dryRun ret"
      and "ps = foldl (passStep isStatusComplete ret) (startPass ret options st) ops"
  shows "cs_deployment (ps_commit ps) = cs_deployment st
     \<and> stepID (ps_tracker ps) = None
     \<and> ps_invoked ps = []
     \<and> (\<forall>n e el. map_of (statMap (ps_tracker ps)) n = Some e \<longrightarrow> isGoalStatus e \<longrightarrow>
            node_element n = Some el \<longrightarrow>
            (\<exists>tk. map_of (taskMap (ps_tracker ps)) n = Some (el_id el)
                \<and> tGroup (ps_tracker ps) (el_id el) = Some tk
                \<and> (task_state tk = TaskSkipped \<or> task_state tk = TaskFailed)
                \<and> (noSetErrors ops \<longrightarrow> task_state tk = TaskSkipped)))"
proof -
  let ?d = "cs_deployment st"
  have d0: "dryInv ?d (startPass ret options st)" by (rule startPass_dry[OF assms(1)])
  have d: "dryInv ?d ps" unfolding assms(2) by (rule runPass_dry[OF assms(1) d0])
  have iT: "skipInv True (ps_tracker ps)"
    unfolding assms(2)
    by (rule runPass_skipInv[OF assms(1) d0 startPass_skipInv[OF assms(1)]]) simp
  have iF: "noSetErrors ops \<Longrightarrow> skipInv False (ps_tracker ps)"
    unfolding assms(2)
    by (rule runPass_skipInv[OF assms(1) d0 startPass_skipInv[OF assms(1)]]) simp
  have "\<exists>tk. map_of (taskMap (ps_tracker ps)) n = Some (el_id el)
                \<and> tGroup (ps_tracker ps) (el_id el) = Some tk
                \<and> (task_state tk = TaskSkipped \<or> task_state tk = TaskFailed)
                \<and> (noSetErrors ops \<longrightarrow> task_state tk = TaskSkipped)"
    if h: "map_of (statMap (ps_tracker ps)) n = Some e" "isGoalStatus e" "node_element n = Some el"
    for n e el
  proof -
    obtain tk where tk: "map_of (taskMap (ps_tracker ps)) n = Some (el_id el)"
        "tGroup (ps_tracker ps) (el_id el) = Some tk"
        "task_state tk = TaskSkipped \<or> task_state tk = TaskFailed"
      using iT h unfolding skipInv_def goalTasksIn_def by fastforce
    have "noSetErrors ops \<Longrightarrow> task_state tk = TaskSkipped"
    proof -
      assume "noSetErrors ops"
      then have "skipInv False (ps_tracker ps)" by (rule iF)
      then show ?thesis using h tk(2) unfolding skipInv_def goalTasksIn_def by fastforce
    qed
    then show ?thesis using tk by blast
  qed
  then show ?thesis using d by (simp add: dryInv_def)
qed

theorem dry_run_purity_witness:
  "bc_dryRun (exContext True)
   \<and> map_of (statMap (ps_tracker exDryPass)) exNodeA = Some (Std Deployed)
   \<and> cs_deployment (ps_commit exDryPass) = exDeployment
   \<and> ps_invoked exDryPass = []
   \<and> map_option task_state (tGroup (ps_tracker exDryPass) ''a'') = Some TaskSkipped"
proof -
  have dry: "bc_dryRun (exContext True)" by (simp add: exContext_def)
  have sm: "map_of (statMap (ps_tracker exDryPass)) exNodeA = Some (Std Deployed)"
    unfolding exDryPass_def by code_simp
  have g: "isGoalStatus (Std Deployed)" by (simp add: isGoalStatus_def)
  have el: "node_element exNodeA = Some exElemA" "el_id exElemA = ''a''"
    by (simp_all add: exNodeA_def exElemA_def)
  have ne: "noSetErrors exPassOps" by (simp add: noSetErrors_def exPassOps_def)
  have st: "cs_deployment (currentState_commitState exDeployment) = exDeployment"
    by (simp add: currentState_commitState_def)
  note th = dry_run_purity[OF dry exDryPass_def]
  from th sm g el ne obtain tk where
    "tGroup (ps_tracker exDryPass) ''a'' = Some tk" "task_state tk = TaskSkipped"
    by (metis (no_types, lifting))
  then show ?thesis using th dry sm st by simp
qed

text \<open>
  Claim C9 (counter sums). For a tracker constructed over the nodes \<open>opt_nodes options\<close>
  and after every sequence of calls of \<^verbatim>\<open>set\<close>: the buckets of \<open>nodeStatus\<close> sum to
  the number of nodes, those of \<open>primStatus\<close> and of \<open>nonPrimStatus\<close> to the number of
  element-bearing nodes whose element is, respectively is not, a final DOM element.
  Over a set of nodes (no node twice) each bucket of \<open>nodeStatus\<close> is the number of
  nodes at that status, each bucket of \<open>primStatus\<close> the number of nodes with a final DOM
  element at that status, and each bucket of \<open>nonPrimStatus\<close> the number of nodes with
  another element at that status. Every further call that changes the status of a node
  (it returns true) decrements the bucket of the node's old status and increments the
  bucket of the new one, in \<open>nodeStatus\<close> and in the family the node belongs to, and
  leaves the other family as it is (both, for a node without element); a call that is a
  no-op (it returns false) leaves the tracker as it is.
\<close>

theorem counters_partition_nodes:
  assumes "runSets (createStatusTracker options d0) calls = (rs, t, d)"
  shows "sumStatus (nodeStatus t) = int (length (opt_nodes options))
     \<and> sumStatus (primStatus t) = int (length (filter isPrimNode (opt_nodes options)))
     \<and> sumStatus (nonPrimStatus t) = int (length (filter isNonPrimNode (opt_nodes options)))
     \<and> (distinct (opt_nodes options) \<longrightarrow>
          map fst (statMap t) = opt_nodes options
          \<and> (\<forall>s. nodeStatus t s = int (nodesAt t s))
          \<and> (\<forall>s. primStatus t s = int (primNodesAt t s))
          \<and> (\<forall>s. nonPrimStatus t s = int (nonPrimNodesAt t s)))
     \<and> (\<forall>n s err desc t' d'.
          st_set (t, d) n s err desc = (Inr True, t', d') \<longrightarrow>
            (\<exists>old. st_get t n = Inr old \<and> old \<noteq> s \<and> st_get t' n = Inr s
               \<and> nodeStatus t' = incr (decr (nodeStatus t) (toDeployStatus old)) (toDeployStatus s)
               \<and> primStatus t' =
                   (if isPrimNode n
                    then incr (decr (primStatus t) (toDeployStatus old)) (toDeployStatus s)
                    else primStatus t)
               \<and> nonPrimStatus t' =
                   (if isNonPrimNode n
                    then incr (decr (nonPrimStatus t) (toDeployStatus old)) (toDeployStatus s)
                    else nonPrimStatus t)))
     \<and> (\<forall>n s err desc t' d'.
          st_set (t, d) n s err desc = (Inr False, t', d') \<longrightarrow> t' = t \<and> d' = d)"
proof -
  obtain t0 d1 where c: "createStatusTracker options d0 = (t0, d1)" by (cases "createStatusTracker options d0")
  have "sumsOk (opt_nodes options) t0" using create_sumsOk[of options d0] c by simp
  then have s: "sumsOk (opt_nodes options) t"
    using runSets_sumsOk[of "opt_nodes options" "(t0, d1)" calls rs t d] assms c by simp
  have b: "distinct (opt_nodes options) \<Longrightarrow>
          map fst (statMap t) = opt_nodes options \<and> (\<forall>s. nodeStatus t s = int (nodesAt t s))
          \<and> (\<forall>s. primStatus t s = int (primNodesAt t s))
          \<and> (\<forall>s. nonPrimStatus t s = int (nonPrimNodesAt t s))"
  proof -
    assume dist: "distinct (opt_nodes options)"
    have c0: "countsOk t0" using create_countsOk[OF dist, of d0] c by simp
    have f0: "familiesOk t0" using create_familiesOk[OF dist, of d0] c by simp
    have k0: "map fst (statMap t0) = opt_nodes options"
      using create_statMap[OF dist, of d0] c by (simp add: comp_def)
    have "countsOk t \<and> map fst (statMap t) = map fst (statMap t0)"
      using runSets_countsOk[of "(t0, d1)" calls rs t d] c0 assms c by simp
    moreover have "familiesOk t"
      using runSets_familiesOk[of "(t0, d1)" calls rs t d] f0 assms c by simp
    ultimately show ?thesis using k0 by (simp add: countsOk_iff familiesOk_iff)
  qed
  have m: "\<forall>n s err desc t' d'.
          st_set (t, d) n s err desc = (Inr True, t', d') \<longrightarrow>
            (\<exists>old. st_get t n = Inr old \<and> old \<noteq> s \<and> st_get t' n = Inr s
               \<and> nodeStatus t' = incr (decr (nodeStatus t) (toDeployStatus old)) (toDeployStatus s)
               \<and> primStatus t' =
                   (if isPrimNode n
                    then incr (decr (primStatus t) (toDeployStatus old)) (toDeployStatus s)
                    else primStatus t)
               \<and> nonPrimStatus t' =
                   (if isNonPrimNode n
                    then incr (decr (nonPrimStatus t) (toDeployStatus old)) (toDeployStatus s)
                    else nonPrimStatus t))"
  proof (intro allI impI)
    fix n s err desc t' d'
    assume a: "st_set (t, d) n s err desc = (Inr True, t', d')"
    obtain old where o: "st_get t n = Inr old" "old \<noteq> s" "map_of (statMap t') n = Some s"
      "nodeStatus t' = incr (decr (nodeStatus t) (toDeployStatus old)) (toDeployStatus s)"
      "primStatus t' = (if isPrimNode n
                         then incr (decr (primStatus t) (toDeployStatus old)) (toDeployStatus s)
                         else primStatus t)"
      "nonPrimStatus t' = (if isNonPrimNode n
                            then incr (decr (nonPrimStatus t) (toDeployStatus old)) (toDeployStatus s)
                            else nonPrimStatus t)"
      using st_set_moves[OF a] by blast
    have "st_get t' n = Inr s" using o(3) by (simp add: st_get_def)
    then show "\<exists>old. st_get t n = Inr old \<and> old \<noteq> s \<and> st_get t' n = Inr s
               \<and> nodeStatus t' = incr (decr (nodeStatus t) (toDeployStatus old)) (toDeployStatus s)
               \<and> primStatus t' =
                   (if isPrimNode n
                    then incr (decr (primStatus t) (toDeployStatus old)) (toDeployStatus s)
                    else primStatus t)
               \<and> nonPrimStatus t' =
                   (if isNonPrimNode n
                    then incr (decr (nonPrimStatus t) (toDeployStatus old)) (toDeployStatus s)
                    else nonPrimStatus t)"
      using o by blast
  qed
  have u: "\<forall>n s err desc t' d'.
          st_set (t, d) n s err desc = (Inr False, t', d') \<longrightarrow> t' = t \<and> d' = d"
    using st_set_unchanged by blast
  show ?thesis using s b m u unfolding sumsOk_def by blast
qed

theorem counters_partition_nodes_witness:
  "distinct (opt_nodes (exOptions False))
   \<and> sumStatus (nodeStatus exTracker) = 3
   \<and> sumStatus (primStatus exTracker) = 1
   \<and> sumStatus (nonPrimStatus exTracker) = 1
   \<and> nodeStatus exTracker Failed = 1 \<and> nodeStatus exTracker Deployed = 1
   \<and> nodeStatus exTracker Waiting = 1
   \<and> primStatus exTracker Failed = 1 \<and> primStatus exTracker Waiting = 0
   \<and> nonPrimStatus exTracker Deployed = 1 \<and> nonPrimStatus exTracker Waiting = 0
   \<and> fst (st_set (exTracker, exStore) exNodeC (Std Deploying) None None) = Inr True
   \<and> nodeStatus (fst (snd (st_set (exTracker, exStore) exNodeC (Std Deploying) None None)))
       = incr (decr (nodeStatus exTracker) Waiting) Deploying
   \<and> primStatus (fst (snd (st_set (exTracker, exStore) exNodeC (Std Deploying) None None)))
       = primStatus exTracker
   \<and> fst (st_set (exTracker, exStore) exNodeA (Std Deployed) None None) = Inr False
   \<and> fst (snd (st_set (exTracker, exStore) exNodeA (Std Deployed) None None)) = exTracker"
proof -
  let ?r1 = "st_set (exTracker, exStore) exNodeC (Std Deploying) None None"
  let ?r2 = "st_set (exTracker, exStore) exNodeA (Std Deployed) None None"
  have d: "distinct (opt_nodes (exOptions False))"
    by (simp add: exOptions_def exNodeA_def exNodeB_def exNodeC_def)
  have r: "runSets (createStatusTracker (exOptions False) exDeployment) exCalls
           = (fst (runSets (createStatusTracker (exOptions False) exDeployment) exCalls),
              exTracker, exStore)"
    by (simp add: exTracker_def exStore_def)
  have n1: "nodesAt exTracker Failed = 1" unfolding exTracker_def by code_simp
  have n2: "nodesAt exTracker Deployed = 1" unfolding exTracker_def by code_simp
  have n3: "nodesAt exTracker Waiting = 1" unfolding exTracker_def by code_simp
  have f1: "primNodesAt exTracker Failed = 1" unfolding exTracker_def by code_simp
  have f2: "primNodesAt exTracker Waiting = 0" unfolding exTracker_def by code_simp
  have f3: "nonPrimNodesAt exTracker Deployed = 1" unfolding exTracker_def by code_simp
  have f4: "nonPrimNodesAt exTracker Waiting = 0" unfolding exTracker_def by code_simp
  have p: "length (filter isPrimNode (opt_nodes (exOptions False))) = 1"
          "length (filter isNonPrimNode (opt_nodes (exOptions False))) = 1"
          "length (opt_nodes (exOptions False)) = 3"
    by (simp_all add: exOptions_def exNodeA_def exNodeB_def exNodeC_def exElemA_def exElemB_def
          isPrimNode_def isNonPrimNode_def)
  have c1: "fst ?r1 = Inr True"
    unfolding exTracker_def exStore_def by code_simp
  have c2: "fst ?r2 = Inr False"
    unfolding exTracker_def exStore_def by code_simp
  have g: "st_get exTracker exNodeC = Inr (Std Waiting)"
    unfolding exTracker_def by code_simp
  have k: "\<not> isPrimNode exNodeC"
    by (simp add: isPrimNode_def exNodeC_def)
  have e1: "?r1 = (Inr True, fst (snd ?r1), snd (snd ?r1))"
    using c1 by (cases ?r1) simp
  have e2: "?r2 = (Inr False, fst (snd ?r2), snd (snd ?r2))"
    using c2 by (cases ?r2) simp
  note th = counters_partition_nodes[OF r]
  note a1 = th[THEN conjunct1]
  note a2 = th[THEN conjunct2, THEN conjunct1]
  note a3 = th[THEN conjunct2, THEN conjunct2, THEN conjunct1]
  note a4 = th[THEN conjunct2, THEN conjunct2, THEN conjunct2, THEN conjunct1, THEN mp, OF d]
  note a5 = th[THEN conjunct2, THEN conjunct2, THEN conjunct2, THEN conjunct2, THEN conjunct1,
               rule_format, OF e1]
  note a6 = th[THEN conjunct2, THEN conjunct2, THEN conjunct2, THEN conjunct2, THEN conjunct2,
               rule_format, OF e2]
  have s1: "sumStatus (nodeStatus exTracker) = 3" using a1 p by simp
  have s2: "sumStatus (primStatus exTracker) = 1" using a2 p by simp
  have s3: "sumStatus (nonPrimStatus exTracker) = 1" using a3 p by simp
  have b1: "nodeStatus exTracker Failed = 1" "nodeStatus exTracker Deployed = 1"
           "nodeStatus exTracker Waiting = 1"
    using a4 n1 n2 n3 by simp_all
  have b2: "primStatus exTracker Failed = 1" "primStatus exTracker Waiting = 0"
    using a4 f1 f2 by simp_all
  have b3: "nonPrimStatus exTracker Deployed = 1" "nonPrimStatus exTracker Waiting = 0"
    using a4 f3 f4 by simp_all
  have m1: "nodeStatus (fst (snd ?r1)) = incr (decr (nodeStatus exTracker) Waiting) Deploying"
           "primStatus (fst (snd ?r1)) = primStatus exTracker"
    using a5 g k by auto
  have m2: "fst (snd ?r2) = exTracker"
    using a6 by simp
  show ?thesis
    using d s1 s2 s3 b1 b2 b3 c1 c2 m1 m2 by simp
qed

text \<open>
  Claim C10 (unregistered names). A name that is neither registered nor inherited from
  \<^verbatim>\<open>Object.prototype\<close> is skipped (\<open>startTasks_skips_undefined\<close>). A name such as
  \<^verbatim>\<open>toString\<close>, for which no observer is registered, is not: its lookup yields the
  inherited member, the task is started, the call of \<^verbatim>\<open>obs.observe\<close> throws, a warning is
  logged and the call of \<^verbatim>\<open>observe\<close> throws the aggregate error.
\<close>

theorem observe_inherited_name_not_skipped:
  "(Map.empty :: (nat, nat) ObserverRecord) ''toString'' = None
   \<and> observe (Map.empty :: (nat, nat) ObserverRecord) Map.empty [''toString''] (\<lambda>tasks. tasks)
     = ([''Error observing for toString: obs.observe is not a function''],
        Inl \<lparr>oe_message = ''Errors during observations:'' @ [CHR 0x0A]
                 @ ''Error observing for toString: obs.observe is not a function'',
             oe_observations = Map.empty\<rparr>)"
  by (simp add: observe_def settle_def callObserve_def taskFor_def jsGet_def
        objectPrototypeKeys_def observeErrorMessage_def Let_def)

end
